theory Spec2Isabelle
  imports Main "HOL-Library.AList"
begin

section \<open>Cell auto-reload: the model of \<^verbatim>\<open>etils/ecolab/cell_autoreload.py\<close>\<close>

text \<open>
  Naming: a Python name with a leading underscore (\<^verbatim>\<open>_reaches_targets\<close>) is written with the
  prefix \<open>p_\<close> (\<open>p_reaches_targets\<close>), since an Isabelle name cannot start with an
  underscore. Exceptions are values of \<open>pyexn\<close>; a function that can raise returns
  \<open>pyexn + 'a\<close> with \<open>Inl\<close> the exception.
\<close>

datatype pyexn = KeyError | ValueError | AttributeError | TypeError | RecursionError | OtherError

subsection \<open>Loaded modules and the file system\<close>

text \<open>
  A value bound in a module's namespace is either a module object (only its
  \<^verbatim>\<open>__name__\<close> is read, by \<^verbatim>\<open>inspect.ismodule(val) and val.__name__ in nodes\<close>) or anything
  else. A module object carries its identity (what \<^verbatim>\<open>id\<close> returns), its \<^verbatim>\<open>__name__\<close>, its
  \<^verbatim>\<open>__file__\<close> (\<open>None\<close> when the attribute is missing or is \<^verbatim>\<open>None\<close>) and its namespace.
  \<^verbatim>\<open>sys.modules\<close> is a map from names to module objects.
\<close>

datatype pyval = ModuleVal string | OtherVal

record py_module =
  mod_id :: nat
  mod_name :: string
  mod_file :: "string option"
  mod_dict :: "(string \<times> pyval) list"

type_synonym sys_modules = "string \<rightharpoonup> py_module"

text \<open>\<^verbatim>\<open>Path.stat()\<close>: the modification time, or an \<^verbatim>\<open>OSError\<close>.\<close>

datatype stat_result = Mtime int | OSError

type_synonym file_system = "string \<Rightarrow> stat_result"

subsection \<open>\<^verbatim>\<open>_create_module_graph\<close>\<close>

type_synonym graph = "(string \<times> string list) list"

text \<open>
  The inner loop of \<^verbatim>\<open>_create_module_graph\<close>: the names of the module objects bound in the
  namespace of \<open>m\<close> that are in \<open>nodes\<close>.
\<close>

fun module_deps :: "string list \<Rightarrow> (string \<times> pyval) list \<Rightarrow> string list" where
  "module_deps nodes [] = []"
| "module_deps nodes ((key, ModuleVal name) # vals) =
     (if name \<in> set nodes then name # module_deps nodes vals else module_deps nodes vals)"
| "module_deps nodes ((key, OtherVal) # vals) = module_deps nodes vals"

text \<open>The outer loop; \<^verbatim>\<open>sys.modules[source]\<close> raises \<^verbatim>\<open>KeyError\<close> on a module that is not loaded.\<close>

fun create_module_graph_loop :: "string list \<Rightarrow> sys_modules \<Rightarrow> string list \<Rightarrow> pyexn + graph" where
  "create_module_graph_loop nodes sm [] = Inr []"
| "create_module_graph_loop nodes sm (source # rest) =
     (case sm source of
        None \<Rightarrow> Inl KeyError
      | Some m \<Rightarrow>
          (case create_module_graph_loop nodes sm rest of
             Inl e \<Rightarrow> Inl e
           | Inr graph \<Rightarrow> Inr ((source, module_deps nodes (mod_dict m)) # graph)))"

definition p_create_module_graph :: "string list \<Rightarrow> sys_modules \<Rightarrow> pyexn + graph" where
  "p_create_module_graph nodes sm = create_module_graph_loop nodes sm nodes"

subsection \<open>\<^verbatim>\<open>_ModuleSearch\<close>\<close>

text \<open>\<^verbatim>\<open>self._graph.get(m, set())\<close>\<close>

definition graph_get :: "graph \<Rightarrow> string \<Rightarrow> string list" where
  "graph_get g m = (case map_of g m of None \<Rightarrow> [] | Some ns \<Rightarrow> ns)"

record module_search =
  ms_graph :: graph
  ms_cache :: "string \<rightharpoonup> bool"
  ms_targets :: "string set"

text \<open>\<^verbatim>\<open>_ModuleSearch.__init__\<close>\<close>

definition new_module_search :: "string set \<Rightarrow> graph \<Rightarrow> module_search" where
  "new_module_search targets graph = \<lparr>ms_graph = graph, ms_cache = Map.empty, ms_targets = targets\<rparr>"

text \<open>
  The \<^verbatim>\<open>for neighbour in ...\<close> loop of \<^verbatim>\<open>_reaches_targets\<close>. Besides the queue and the visited set
  of the source, the model keeps \<open>enq\<close>, the list of every node that was ever put in the
  queue, in order: it is written and never read, and records the calls of
  \<^verbatim>\<open>queue.append\<close>.
\<close>

fun visit_neighbours ::
  "string list \<Rightarrow> string list \<Rightarrow> string set \<Rightarrow> string list
     \<Rightarrow> string list \<times> string set \<times> string list" where
  "visit_neighbours [] queue visited enq = (queue, visited, enq)"
| "visit_neighbours (neighbour # ns) queue visited enq =
     (if neighbour \<notin> visited
      then visit_neighbours ns (queue @ [neighbour]) (insert neighbour visited) (enq @ [neighbour])
      else visit_neighbours ns queue visited enq)"

text \<open>
  The \<^verbatim>\<open>while queue:\<close> loop. Nothing in its shape bounds the number of iterations, so it is
  a partial function: \<open>None\<close> is a loop that never returns.
\<close>

partial_function (option) bfs_loop ::
  "graph \<Rightarrow> (string \<rightharpoonup> bool) \<Rightarrow> string set \<Rightarrow> string list \<Rightarrow> string set \<Rightarrow> string list
     \<Rightarrow> (bool \<times> string list) option" where
  "bfs_loop g cache targets queue visited enq =
     (case queue of
        [] \<Rightarrow> Some (False, enq)
      | m # rest \<Rightarrow>
          (case cache m of
             Some reaches \<Rightarrow>
               if reaches then Some (True, enq)
               else bfs_loop g cache targets rest visited enq
           | None \<Rightarrow>
               if m \<in> targets then Some (True, enq)
               else (case visit_neighbours (graph_get g m) rest visited enq of
                       (queue', visited', enq') \<Rightarrow>
                         bfs_loop g cache targets queue' visited' enq')))"

declare bfs_loop.simps [code]

text \<open>
  \<^verbatim>\<open>_reaches_targets\<close> with its enqueue record, then the function itself and the record
  alone.
\<close>

definition reaches_targets_traced :: "module_search \<Rightarrow> string \<Rightarrow> (bool \<times> string list) option" where
  "reaches_targets_traced s source =
     bfs_loop (ms_graph s) (ms_cache s) (ms_targets s) [source] {source} [source]"

definition p_reaches_targets :: "module_search \<Rightarrow> string \<Rightarrow> bool option" where
  "p_reaches_targets s source = map_option fst (reaches_targets_traced s source)"

definition enqueued :: "module_search \<Rightarrow> string \<Rightarrow> string list option" where
  "enqueued s source = map_option snd (reaches_targets_traced s source)"

text \<open>\<^verbatim>\<open>reaches_targets\<close>: the result and the search with its cache updated.\<close>

definition reaches_targets :: "module_search \<Rightarrow> string \<Rightarrow> (bool \<times> module_search) option" where
  "reaches_targets s source =
     (case p_reaches_targets s source of
        None \<Rightarrow> None
      | Some ret \<Rightarrow> Some (ret, s\<lparr>ms_cache := (ms_cache s)(source \<mapsto> ret)\<rparr>))"

text \<open>
  \<^verbatim>\<open>[mod for mod in reload_set if search.reaches_targets(mod)]\<close>: the queries share one search
  object, hence one cache. The second component is the search after the last query.
\<close>

fun filter_reaching :: "module_search \<Rightarrow> string list \<Rightarrow> (string list \<times> module_search) option" where
  "filter_reaching s [] = Some ([], s)"
| "filter_reaching s (md # mods) =
     (case reaches_targets s md of
        None \<Rightarrow> None
      | Some (ret, s') \<Rightarrow>
          (case filter_reaching s' mods of
             None \<Rightarrow> None
           | Some (rest, s'') \<Rightarrow> Some (if ret then md # rest else rest, s'')))"

text \<open>
  Lines 198 to 206 of the hook: the graph over the reload set, a fresh search with the
  dirty modules as targets, and the selection. \<open>reload_set\<close> lists the elements of
  \<^verbatim>\<open>set(module_utils.get_module_names(self.reload))\<close> in the order the Python set yields them.
\<close>

definition modules_to_update ::
  "sys_modules \<Rightarrow> string list \<Rightarrow> string set \<Rightarrow> (pyexn + string list) option" where
  "modules_to_update sm reload_set dirty_modules =
     (case p_create_module_graph reload_set sm of
        Inl e \<Rightarrow> Some (Inl e)
      | Inr graph \<Rightarrow>
          (case filter_reaching (new_module_search dirty_modules graph) reload_set of
             None \<Rightarrow> None
           | Some (mods, s) \<Rightarrow> Some (Inr mods)))"

subsection \<open>The staleness check\<close>

text \<open>\<^verbatim>\<open>_get_last_module_update\<close>\<close>

definition p_get_last_module_update :: "sys_modules \<Rightarrow> file_system \<Rightarrow> string \<Rightarrow> int option" where
  "p_get_last_module_update sm fs module_name =
     (case sm module_name of
        None \<Rightarrow> None
      | Some module \<Rightarrow>
          if mod_name module = ''__main__'' then None
          else (case mod_file module of
                  None \<Rightarrow> None
                | Some module_file \<Rightarrow>
                    if module_file = [] then None
                    else (case fs module_file of Mtime t \<Rightarrow> Some t | OSError \<Rightarrow> None)))"

text \<open>
  \<^verbatim>\<open>self._last_updates: dict[str, int | None]\<close>: a key can be absent, or present with the
  value \<^verbatim>\<open>None\<close>. \<^verbatim>\<open>dict.get\<close> returns \<^verbatim>\<open>None\<close> for both.
\<close>

type_synonym last_updates = "string \<rightharpoonup> int option"

definition dict_get :: "last_updates \<Rightarrow> string \<Rightarrow> int option" where
  "dict_get d k = (case d k of None \<Rightarrow> None | Some v \<Rightarrow> v)"

text \<open>\<^verbatim>\<open>prev_mtime is None or (new_mtime is not None and new_mtime > prev_mtime)\<close>\<close>

definition is_dirty :: "int option \<Rightarrow> int option \<Rightarrow> bool" where
  "is_dirty prev_mtime new_mtime =
     (case prev_mtime of
        None \<Rightarrow> True
      | Some p \<Rightarrow> (case new_mtime of None \<Rightarrow> False | Some n \<Rightarrow> n > p))"

text \<open>
  Lines 184 to 193 of the hook. \<open>names\<close> is what \<^verbatim>\<open>module_utils.get_module_names(self.reload)\<close>
  returns (that function is not part of the sources at hand).
\<close>

fun find_dirty_modules ::
  "sys_modules \<Rightarrow> file_system \<Rightarrow> string list \<Rightarrow> string set \<times> last_updates
     \<Rightarrow> string set \<times> last_updates" where
  "find_dirty_modules sm fs [] (dirty_modules, lu) = (dirty_modules, lu)"
| "find_dirty_modules sm fs (module # rest) (dirty_modules, lu) =
     (let prev_mtime = dict_get lu module;
          new_mtime = p_get_last_module_update sm fs module
      in find_dirty_modules sm fs rest
           (if is_dirty prev_mtime new_mtime then insert module dirty_modules else dirty_modules,
            lu(module \<mapsto> new_mtime)))"

text \<open>The check as the hook runs it: it starts from the empty set.\<close>

definition staleness_check ::
  "sys_modules \<Rightarrow> file_system \<Rightarrow> string list \<Rightarrow> last_updates \<Rightarrow> string set \<times> last_updates" where
  "staleness_check sm fs names lu = find_dirty_modules sm fs names ({}, lu)"

text \<open>
  \<^verbatim>\<open>ModuleReloader.register\<close>, as far as the reloader's own state goes: the \<^verbatim>\<open>ValueError\<close> on an
  empty \<^verbatim>\<open>reload\<close>, then one timestamp per module.
\<close>

fun register_loop :: "sys_modules \<Rightarrow> file_system \<Rightarrow> string list \<Rightarrow> last_updates \<Rightarrow> last_updates" where
  "register_loop sm fs [] lu = lu"
| "register_loop sm fs (module # rest) lu =
     register_loop sm fs rest (lu(module \<mapsto> p_get_last_module_update sm fs module))"

definition register ::
  "string list \<Rightarrow> sys_modules \<Rightarrow> file_system \<Rightarrow> string list \<Rightarrow> last_updates \<Rightarrow> pyexn + last_updates" where
  "register reload sm fs names lu =
     (if reload = [] then Inl ValueError else Inr (register_loop sm fs names lu))"

text \<open>
  A sequence of checks, each in its own environment (the loaded modules, the file system
  and the watched names at that moment): the dirty set of each check, in order, and the
  timestamps after the last one.
\<close>

fun run_checks ::
  "(sys_modules \<times> file_system \<times> string list) list \<Rightarrow> last_updates
     \<Rightarrow> string set list \<times> last_updates" where
  "run_checks [] lu = ([], lu)"
| "run_checks ((sm, fs, names) # envs) lu =
     (case staleness_check sm fs names lu of
        (dirty, lu') \<Rightarrow> (case run_checks envs lu' of (ds, lu'') \<Rightarrow> (dirty # ds, lu'')))"

subsection \<open>The globals of the user namespace\<close>

text \<open>
  \<^verbatim>\<open>_ModuleInfo\<close>. The user namespace maps a name to the identity of the object bound to it:
  the hook compares \<^verbatim>\<open>id\<close>s and looks at nothing else of those objects.
\<close>

record module_info =
  info_name :: string
  info_instance :: py_module

type_synonym user_ns = "string \<rightharpoonup> nat"

text \<open>
  Lines 233 to 245: the loop over \<^verbatim>\<open>self._globals_to_update.items()\<close>. It returns the user
  namespace and the entries of \<^verbatim>\<open>_globals_to_update\<close>, each in its place with its new value.
  \<^verbatim>\<open>kernel_globals.get(name)\<close> is \<^verbatim>\<open>None\<close> for an unbound name, whose \<^verbatim>\<open>id\<close> is not that of a module.
\<close>

fun update_globals ::
  "string list \<Rightarrow> sys_modules \<Rightarrow> (string \<times> module_info) list \<Rightarrow> user_ns
     \<Rightarrow> pyexn + (user_ns \<times> (string \<times> module_info) list)" where
  "update_globals mods sm [] kernel_globals = Inr (kernel_globals, [])"
| "update_globals mods sm ((name, info) # items) kernel_globals =
     (if info_name info \<in> set mods \<and> kernel_globals name = Some (mod_id (info_instance info))
      then (case sm (info_name info) of
              None \<Rightarrow> Inl KeyError
            | Some reloaded_module \<Rightarrow>
                (case update_globals mods sm items (kernel_globals(name \<mapsto> mod_id reloaded_module)) of
                   Inl e \<Rightarrow> Inl e
                 | Inr (kg, items') \<Rightarrow>
                     Inr (kg, (name, info\<lparr>info_instance := reloaded_module\<rparr>) # items')))
      else (case update_globals mods sm items kernel_globals of
              Inl e \<Rightarrow> Inl e
            | Inr (kg, items') \<Rightarrow> Inr (kg, (name, info) # items')))"

subsection \<open>\<^verbatim>\<open>ModuleReloader._pre_run_cell_maybe_reload\<close>\<close>

text \<open>
  The state the hook reads and writes: the reloader's two dictionaries and the user
  namespace. Its environment: the loaded modules and the file system when the cell is
  submitted, the watched names (as a list, then in set order), and \<open>env_import\<close>, what
  \<^verbatim>\<open>adhoc_imports.adhoc\<close> with \<^verbatim>\<open>importlib.import_module\<close> does for the list of modules it is
  given: it raises, or leaves a new \<^verbatim>\<open>sys.modules\<close>.
\<close>

record hook_state =
  last_updates :: last_updates
  globals_to_update :: "(string \<times> module_info) list"
  user_globals :: user_ns

record hook_env =
  env_modules :: sys_modules
  env_files :: file_system
  env_names :: "string list"
  env_reload_set :: "string list"
  env_import :: "string list \<Rightarrow> pyexn + sys_modules"

definition pre_run_cell_maybe_reload :: "hook_env \<Rightarrow> hook_state \<Rightarrow> (pyexn + hook_state) option" where
  "pre_run_cell_maybe_reload env st =
     (case staleness_check (env_modules env) (env_files env) (env_names env) (last_updates st) of
        (dirty_modules, lu) \<Rightarrow>
          if dirty_modules = {} then Some (Inr (st\<lparr>last_updates := lu\<rparr>))
          else (case modules_to_update (env_modules env) (env_reload_set env) dirty_modules of
                  None \<Rightarrow> None
                | Some (Inl e) \<Rightarrow> Some (Inl e)
                | Some (Inr mods) \<Rightarrow>
                    (case env_import env mods of
                       Inl e \<Rightarrow> Some (Inl e)
                     | Inr sm' \<Rightarrow>
                         (case update_globals mods sm' (globals_to_update st) (user_globals st) of
                            Inl e \<Rightarrow> Some (Inl e)
                          | Inr (kg, items) \<Rightarrow>
                              Some (Inr \<lparr>last_updates = lu, globals_to_update = items,
                                         user_globals = kg\<rparr>)))))"

section \<open>In-place reload: the model of \<^verbatim>\<open>etils/ecolab/inplace_reload.py\<close>\<close>

subsection \<open>Objects, the heap and the runtime\<close>

text \<open>
  The patcher mutates objects that other objects refer to, so objects live in a heap and
  are named by their address: \<^verbatim>\<open>old is new\<close> is equality of addresses, a weak reference is an
  address that the heap may no longer hold, and "the same object, mutated" is the same
  address with a new content. An object that is freed leaves the heap, and no object comes
  to an address afterwards: a weak reference that is dead stays dead.

  Of an object the patcher looks at: which of the types of \<^verbatim>\<open>_UPDATE_RULES\<close> it is an instance
  of (\<open>ob_kind\<close>; the four types exclude each other), its runtime class \<^verbatim>\<open>type(obj)\<close>
  (\<open>ob_type\<close>), its own namespace in insertion order (\<open>ob_attrs\<close>: the \<^verbatim>\<open>__dict__\<close> of a class
  or a module, the attributes of a function, \<^verbatim>\<open>__func__\<close> of a bound method, \<^verbatim>\<open>fget\<close>,
  \<^verbatim>\<open>fset\<close> and \<^verbatim>\<open>fdel\<close> of a property), and its truth value (\<open>ob_true\<close>), which
  \<^verbatim>\<open>if (m := mod())\<close> tests and which the assignments of the patcher are taken to leave as
  it is.
\<close>

type_synonym ref = nat

datatype kind = KClass | KFunction | KMethod | KProperty | KModule | KOther

record pyobj =
  ob_kind :: kind
  ob_type :: ref
  ob_attrs :: "(string \<times> ref) list"
  ob_true :: bool

type_synonym heap = "ref \<rightharpoonup> pyobj"

text \<open>
  What the interpreter decides and the source does not show:

    \<^item> \<open>rt_getattr\<close>: what \<^verbatim>\<open>getattr\<close> gives on a class, an object or an exception. The lookup
      goes through the metaclass and the descriptor protocol (a data descriptor of \<^verbatim>\<open>type\<close>
      such as \<^verbatim>\<open>__dict__\<close> comes first and gives a mapping proxy, a \<^verbatim>\<open>classmethod\<close> of the
      \<^verbatim>\<open>__mro__\<close> gives a bound method, a name that only \<^verbatim>\<open>type\<close> has, such as \<^verbatim>\<open>__call__\<close>, gives
      a method wrapper), so the result need not be what a namespace holds, and it can be an
      object that the lookup makes: such an object is an object of the heap that nothing
      referred to before;
    \<^item> \<open>rt_setattr\<close>, \<open>rt_delattr\<close>: whether an assignment or a deletion of an attribute is
      refused, and with which exception (\<open>None\<close>: it is carried out);
    \<^item> \<open>rt_set_class\<close>: whether \<^verbatim>\<open>object.__setattr__(ref, "__class__", new)\<close> is refused;
    \<^item> \<open>rt_get_referrers\<close>: the list that \<^verbatim>\<open>gc.get_referrers\<close> returns;
    \<^item> \<open>rt_collect\<close>: the objects that are freed at a point of the run where references
      were dropped (by the reference counts or by the cycle collector), given the objects
      that the variables of the running pass hold.
\<close>

record runtime =
  rt_getattr :: "heap \<Rightarrow> ref \<Rightarrow> string \<Rightarrow> pyexn + ref"
  rt_setattr :: "ref \<Rightarrow> string \<Rightarrow> ref \<Rightarrow> pyexn option"
  rt_delattr :: "ref \<Rightarrow> string \<Rightarrow> pyexn option"
  rt_set_class :: "ref \<Rightarrow> ref \<Rightarrow> pyexn option"
  rt_get_referrers :: "heap \<Rightarrow> ref \<Rightarrow> ref list"
  rt_collect :: "ref list \<Rightarrow> heap \<Rightarrow> ref \<Rightarrow> bool"

text \<open>\<^verbatim>\<open>isinstance\<close> against the types of \<^verbatim>\<open>_UPDATE_RULES\<close>.\<close>

definition kind_of :: "heap \<Rightarrow> ref \<Rightarrow> kind" where
  "kind_of h r = (case h r of None \<Rightarrow> KOther | Some ob \<Rightarrow> ob_kind ob)"

text \<open>
  \<^verbatim>\<open>getattr(obj, name)\<close>. On a class the runtime decides. The names that the patcher reads on
  a function (\<^verbatim>\<open>__code__\<close>, \<^verbatim>\<open>__defaults__\<close>, \<^verbatim>\<open>__doc__\<close>, \<^verbatim>\<open>__closure__\<close>, \<^verbatim>\<open>__globals__\<close>,
  \<^verbatim>\<open>__dict__\<close>), on a bound method (\<^verbatim>\<open>__func__\<close>) and on a property (\<^verbatim>\<open>fget\<close>, \<^verbatim>\<open>fset\<close>, \<^verbatim>\<open>fdel\<close>) are
  slots of the object itself: the lookup gives what the own namespace holds, and
  \<^verbatim>\<open>AttributeError\<close> for a name it does not hold.
\<close>

definition py_getattr :: "runtime \<Rightarrow> heap \<Rightarrow> ref \<Rightarrow> string \<Rightarrow> pyexn + ref" where
  "py_getattr rt h r name =
     (case h r of
        None \<Rightarrow> Inl AttributeError
      | Some ob \<Rightarrow>
          if ob_kind ob = KClass then rt_getattr rt h r name
          else (case map_of (ob_attrs ob) name of
                  None \<Rightarrow> Inl AttributeError
                | Some v \<Rightarrow> Inr v))"

text \<open>
  \<^verbatim>\<open>setattr(obj, name, v)\<close>: an existing name keeps its place in the namespace, a new one goes
  to the end. \<^verbatim>\<open>delattr(obj, name)\<close> raises \<^verbatim>\<open>AttributeError\<close> for a name that the own namespace
  does not hold.
\<close>

definition py_setattr :: "runtime \<Rightarrow> heap \<Rightarrow> ref \<Rightarrow> string \<Rightarrow> ref \<Rightarrow> pyexn + heap" where
  "py_setattr rt h r name v =
     (case rt_setattr rt r name v of
        Some e \<Rightarrow> Inl e
      | None \<Rightarrow>
          (case h r of
             None \<Rightarrow> Inl AttributeError
           | Some ob \<Rightarrow> Inr (h(r \<mapsto> ob\<lparr>ob_attrs := AList.update name v (ob_attrs ob)\<rparr>))))"

definition py_delattr :: "runtime \<Rightarrow> heap \<Rightarrow> ref \<Rightarrow> string \<Rightarrow> pyexn + heap" where
  "py_delattr rt h r name =
     (case rt_delattr rt r name of
        Some e \<Rightarrow> Inl e
      | None \<Rightarrow>
          (case h r of
             None \<Rightarrow> Inl AttributeError
           | Some ob \<Rightarrow>
               if name \<in> fst ` set (ob_attrs ob)
               then Inr (h(r \<mapsto> ob\<lparr>ob_attrs := AList.delete name (ob_attrs ob)\<rparr>))
               else Inl AttributeError))"

text \<open>\<^verbatim>\<open>object.__setattr__(ref, "__class__", cls)\<close>\<close>

definition py_set_class :: "runtime \<Rightarrow> heap \<Rightarrow> ref \<Rightarrow> ref \<Rightarrow> pyexn + heap" where
  "py_set_class rt h r cls =
     (case rt_set_class rt r cls of
        Some e \<Rightarrow> Inl e
      | None \<Rightarrow>
          (case h r of
             None \<Rightarrow> Inl AttributeError
           | Some ob \<Rightarrow> Inr (h(r \<mapsto> ob\<lparr>ob_type := cls\<rparr>))))"

text \<open>
  The objects that the runtime frees leave the heap, but never one that a variable of the
  running pass holds (\<open>held\<close>).
\<close>

definition collect :: "runtime \<Rightarrow> ref list \<Rightarrow> heap \<Rightarrow> heap" where
  "collect rt held h = (\<lambda>r. if r \<notin> set held \<and> rt_collect rt held h r then None else h r)"

text \<open>\<^verbatim>\<open>except (AttributeError, TypeError): pass\<close>\<close>

definition caught :: "pyexn \<Rightarrow> bool" where
  "caught e \<longleftrightarrow> e = AttributeError \<or> e = TypeError"

subsection \<open>\<^verbatim>\<open>_update_function\<close>\<close>

definition function_attributes :: "string list" where
  "function_attributes =
     [''__code__'', ''__defaults__'', ''__doc__'', ''__closure__'', ''__globals__'', ''__dict__'']"

text \<open>
  The \<^verbatim>\<open>try\<close> encloses both the \<^verbatim>\<open>getattr\<close> and the \<^verbatim>\<open>setattr\<close>; an exception that it does not
  catch ends the loop and the call.
\<close>

fun update_function_loop :: "runtime \<Rightarrow> ref \<Rightarrow> ref \<Rightarrow> string list \<Rightarrow> heap \<Rightarrow> pyexn + heap" where
  "update_function_loop rt old new [] h = Inr h"
| "update_function_loop rt old new (name # names) h =
     (case py_getattr rt h new name of
        Inl e \<Rightarrow> if caught e then update_function_loop rt old new names h else Inl e
      | Inr v \<Rightarrow>
          (case py_setattr rt h old name v of
             Inl e \<Rightarrow> if caught e then update_function_loop rt old new names h else Inl e
           | Inr h' \<Rightarrow> update_function_loop rt old new names h'))"

definition p_update_function :: "runtime \<Rightarrow> ref \<Rightarrow> ref \<Rightarrow> heap \<Rightarrow> pyexn + heap" where
  "p_update_function rt old new h = update_function_loop rt old new function_attributes h"

text \<open>
  The rule for \<^verbatim>\<open>types.MethodType\<close>: \<^verbatim>\<open>lambda a, b: _update_function(a.__func__, b.__func__)\<close>.
\<close>

definition update_method :: "runtime \<Rightarrow> ref \<Rightarrow> ref \<Rightarrow> heap \<Rightarrow> pyexn + heap" where
  "update_method rt a b h =
     (case py_getattr rt h a ''__func__'' of
        Inl e \<Rightarrow> Inl e
      | Inr a_func \<Rightarrow>
          (case py_getattr rt h b ''__func__'' of
             Inl e \<Rightarrow> Inl e
           | Inr b_func \<Rightarrow> p_update_function rt a_func b_func h))"

subsection \<open>\<^verbatim>\<open>_update_instances\<close>\<close>

fun update_instances_loop :: "runtime \<Rightarrow> ref \<Rightarrow> ref \<Rightarrow> ref list \<Rightarrow> heap \<Rightarrow> pyexn + heap" where
  "update_instances_loop rt old new [] h = Inr h"
| "update_instances_loop rt old new (r # refs) h =
     (case h r of
        None \<Rightarrow> update_instances_loop rt old new refs h
      | Some ob \<Rightarrow>
          if ob_type ob = old
          then (case py_set_class rt h r new of
                  Inl e \<Rightarrow> Inl e
                | Inr h' \<Rightarrow> update_instances_loop rt old new refs h')
          else update_instances_loop rt old new refs h)"

definition p_update_instances :: "runtime \<Rightarrow> ref \<Rightarrow> ref \<Rightarrow> heap \<Rightarrow> pyexn + heap" where
  "p_update_instances rt old new h =
     update_instances_loop rt old new (rt_get_referrers rt h old) h"

subsection \<open>\<^verbatim>\<open>_update_class\<close>, \<^verbatim>\<open>_update_property\<close> and \<^verbatim>\<open>_update_generic\<close>\<close>

text \<open>
  These three call each other. \<^verbatim>\<open>_update_class\<close> and \<^verbatim>\<open>_update_property\<close> are written over the
  \<^verbatim>\<open>_update_generic\<close> they call (the parameter \<open>update_generic\<close>), and \<open>p_update_generic\<close> below
  closes the recursion.

  \<^verbatim>\<open>list(old.__dict__.keys())\<close>:
\<close>

definition class_keys :: "heap \<Rightarrow> ref \<Rightarrow> string list" where
  "class_keys h r = (case h r of None \<Rightarrow> [] | Some ob \<Rightarrow> map fst (ob_attrs ob))"

text \<open>
  The loop of \<^verbatim>\<open>_update_class\<close>. \<^verbatim>\<open>old_obj = getattr(old, key)\<close> is outside every \<^verbatim>\<open>try\<close>;
  \<^verbatim>\<open>new_obj = getattr(new, key)\<close> is inside \<^verbatim>\<open>try: ... except AttributeError\<close>, whose handler
  deletes the attribute; the \<^verbatim>\<open>getattr(new, key)\<close> of the last statement is inside
  \<^verbatim>\<open>try: ... except (AttributeError, TypeError)\<close> together with the \<^verbatim>\<open>setattr\<close>.
\<close>

fun update_class_loop ::
  "(ref \<Rightarrow> ref \<Rightarrow> heap \<Rightarrow> pyexn + heap) \<Rightarrow> runtime \<Rightarrow> ref \<Rightarrow> ref \<Rightarrow> string list \<Rightarrow> heap
     \<Rightarrow> pyexn + heap" where
  "update_class_loop update_generic rt old new [] h = Inr h"
| "update_class_loop update_generic rt old new (key # keys) h =
     (case py_getattr rt h old key of
        Inl e \<Rightarrow> Inl e
      | Inr old_obj \<Rightarrow>
          (case py_getattr rt h new key of
             Inl e \<Rightarrow>
               if e = AttributeError
               then (case py_delattr rt h old key of
                       Inl e' \<Rightarrow>
                         if caught e' then update_class_loop update_generic rt old new keys h
                         else Inl e'
                     | Inr h' \<Rightarrow> update_class_loop update_generic rt old new keys h')
               else Inl e
           | Inr new_obj \<Rightarrow>
               (case update_generic old_obj new_obj h of
                  Inl e \<Rightarrow> Inl e
                | Inr h1 \<Rightarrow>
                    (case py_getattr rt h1 new key of
                       Inl e \<Rightarrow>
                         if caught e then update_class_loop update_generic rt old new keys h1
                         else Inl e
                     | Inr v \<Rightarrow>
                         (case py_setattr rt h1 old key v of
                            Inl e \<Rightarrow>
                              if caught e then update_class_loop update_generic rt old new keys h1
                              else Inl e
                          | Inr h2 \<Rightarrow> update_class_loop update_generic rt old new keys h2)))))"

definition p_update_class ::
  "(ref \<Rightarrow> ref \<Rightarrow> heap \<Rightarrow> pyexn + heap) \<Rightarrow> runtime \<Rightarrow> ref \<Rightarrow> ref \<Rightarrow> heap \<Rightarrow> pyexn + heap" where
  "p_update_class update_generic rt old new h =
     (case update_class_loop update_generic rt old new (class_keys h old) h of
        Inl e \<Rightarrow> Inl e
      | Inr h' \<Rightarrow> p_update_instances rt old new h')"

text \<open>
  One line of \<^verbatim>\<open>_update_property\<close>, \<^verbatim>\<open>_update_generic(old.fdel, new.fdel)\<close>, and the three in the
  order of the source.
\<close>

definition update_accessor ::
  "(ref \<Rightarrow> ref \<Rightarrow> heap \<Rightarrow> pyexn + heap) \<Rightarrow> runtime \<Rightarrow> ref \<Rightarrow> ref \<Rightarrow> string \<Rightarrow> heap
     \<Rightarrow> pyexn + heap" where
  "update_accessor update_generic rt old new name h =
     (case py_getattr rt h old name of
        Inl e \<Rightarrow> Inl e
      | Inr a \<Rightarrow>
          (case py_getattr rt h new name of
             Inl e \<Rightarrow> Inl e
           | Inr b \<Rightarrow> update_generic a b h))"

definition p_update_property ::
  "(ref \<Rightarrow> ref \<Rightarrow> heap \<Rightarrow> pyexn + heap) \<Rightarrow> runtime \<Rightarrow> ref \<Rightarrow> ref \<Rightarrow> heap \<Rightarrow> pyexn + heap" where
  "p_update_property update_generic rt old new h =
     (case update_accessor update_generic rt old new ''fdel'' h of
        Inl e \<Rightarrow> Inl e
      | Inr h1 \<Rightarrow>
          (case update_accessor update_generic rt old new ''fget'' h1 of
             Inl e \<Rightarrow> Inl e
           | Inr h2 \<Rightarrow> update_accessor update_generic rt old new ''fset'' h2))"

text \<open>
  The body of \<^verbatim>\<open>_update_generic\<close>: the identity test, then the rules of \<^verbatim>\<open>_UPDATE_RULES\<close> in
  their order, the first one whose type both objects are instances of; no rule, no
  change.
\<close>

definition update_rules ::
  "(ref \<Rightarrow> ref \<Rightarrow> heap \<Rightarrow> pyexn + heap) \<Rightarrow> runtime \<Rightarrow> ref \<Rightarrow> ref \<Rightarrow> heap \<Rightarrow> pyexn + heap" where
  "update_rules update_generic rt old new h =
     (if old = new then Inr h
      else if kind_of h old = KClass \<and> kind_of h new = KClass
      then p_update_class update_generic rt old new h
      else if kind_of h old = KFunction \<and> kind_of h new = KFunction
      then p_update_function rt old new h
      else if kind_of h old = KMethod \<and> kind_of h new = KMethod
      then update_method rt old new h
      else if kind_of h old = KProperty \<and> kind_of h new = KProperty
      then p_update_property update_generic rt old new h
      else Inr h)"

text \<open>
  \<^verbatim>\<open>_update_generic\<close>. Nothing in the source bounds the recursion through nested classes and
  properties (\<^verbatim>\<open>TODO(epot): Support cycles\<close>); the interpreter does, with its recursion limit.
  \<open>depth\<close> is the number of nested calls of \<^verbatim>\<open>_update_generic\<close> that the stack still has room
  for below this one; the call that would exceed it raises \<^verbatim>\<open>RecursionError\<close>.
\<close>

definition recursion_error :: "ref \<Rightarrow> ref \<Rightarrow> heap \<Rightarrow> pyexn + heap" where
  "recursion_error old new h = Inl RecursionError"

primrec p_update_generic :: "nat \<Rightarrow> runtime \<Rightarrow> ref \<Rightarrow> ref \<Rightarrow> heap \<Rightarrow> pyexn + heap" where
  "p_update_generic 0 rt = update_rules recursion_error rt"
| "p_update_generic (Suc depth) rt = update_rules (p_update_generic depth rt) rt"

subsection \<open>\<^verbatim>\<open>_ModuleRefs\<close>\<close>

text \<open>
  The weak references of a module's earlier versions and, by name, of the objects they
  defined. A weak reference whose object is gone is an address that the heap does not
  hold.
\<close>

record module_refs =
  refs_modules :: "ref list"
  refs_objs :: "(string \<times> ref list) list"

text \<open>\<^verbatim>\<open>if (m := mod())\<close>: the reference resolves, and to an object that is true.\<close>

definition resolves :: "heap \<Rightarrow> ref \<Rightarrow> bool" where
  "resolves h r = (case h r of None \<Rightarrow> False | Some ob \<Rightarrow> ob_true ob)"

text \<open>
  \<^verbatim>\<open>_update_old_module\<close>: \<^verbatim>\<open>old_module.__dict__.clear()\<close>, then
  \<^verbatim>\<open>old_module.__dict__.update(new_module.__dict__)\<close>. The first statement drops the references
  that the namespace of the old module held: what only they kept alive is freed before
  the second statement, and before the pass resolves the weak references of the objects.
\<close>

definition dict_clear :: "heap \<Rightarrow> ref \<Rightarrow> heap" where
  "dict_clear h r = (case h r of None \<Rightarrow> h | Some ob \<Rightarrow> h(r \<mapsto> ob\<lparr>ob_attrs := []\<rparr>))"

definition dict_update :: "heap \<Rightarrow> ref \<Rightarrow> (string \<times> ref) list \<Rightarrow> heap" where
  "dict_update h r items =
     (case h r of
        None \<Rightarrow> h
      | Some ob \<Rightarrow> h(r \<mapsto> ob\<lparr>ob_attrs := fold (\<lambda>(k, v). AList.update k v) items (ob_attrs ob)\<rparr>))"

definition module_items :: "heap \<Rightarrow> ref \<Rightarrow> (string \<times> ref) list" where
  "module_items h r = (case h r of None \<Rightarrow> [] | Some ob \<Rightarrow> ob_attrs ob)"

definition p_update_old_module :: "runtime \<Rightarrow> ref list \<Rightarrow> ref \<Rightarrow> ref \<Rightarrow> heap \<Rightarrow> heap" where
  "p_update_old_module rt held old_module new_module h =
     (let h1 = collect rt held (dict_clear h old_module)
      in dict_update h1 old_module (module_items h1 new_module))"

text \<open>\<^verbatim>\<open>for old_module in modules: _update_old_module(old_module, new_module)\<close>\<close>

fun update_old_modules :: "runtime \<Rightarrow> ref list \<Rightarrow> ref list \<Rightarrow> ref \<Rightarrow> heap \<Rightarrow> heap" where
  "update_old_modules rt held [] new_module h = h"
| "update_old_modules rt held (old_module # modules) new_module h =
     update_old_modules rt held modules new_module
       (p_update_old_module rt held old_module new_module h)"

text \<open>
  \<^verbatim>\<open>for old_obj in live_old_objects[name]: _update_generic(old_obj, new_obj)\<close>. An update
  rebinds and deletes attributes and so drops references: what only they kept alive is
  freed.
\<close>

fun update_old_objects ::
  "(ref \<Rightarrow> ref \<Rightarrow> heap \<Rightarrow> pyexn + heap) \<Rightarrow> runtime \<Rightarrow> ref list \<Rightarrow> ref list \<Rightarrow> ref \<Rightarrow> heap
     \<Rightarrow> pyexn + heap" where
  "update_old_objects update_generic rt held [] new_obj h = Inr h"
| "update_old_objects update_generic rt held (old_obj # objs) new_obj h =
     (case update_generic old_obj new_obj h of
        Inl e \<Rightarrow> Inl e
      | Inr h' \<Rightarrow> update_old_objects update_generic rt held objs new_obj (collect rt held h'))"

text \<open>
  The loop over \<^verbatim>\<open>new_module.__dict__.items()\<close>; \<open>live\<close> is \<^verbatim>\<open>live_old_objects\<close>, \<open>objs\<close> is
  \<^verbatim>\<open>self.objs\<close>, and \<open>held\<close> are the new module and the old modules of the list \<^verbatim>\<open>modules\<close>. The
  objects of \<^verbatim>\<open>live_old_objects\<close> are held from the moment their weak reference is resolved.
\<close>

fun update_objs_loop ::
  "(ref \<Rightarrow> ref \<Rightarrow> heap \<Rightarrow> pyexn + heap) \<Rightarrow> runtime \<Rightarrow> ref list \<Rightarrow> (string \<times> ref list) list
     \<Rightarrow> (string \<times> ref) list \<Rightarrow> heap \<Rightarrow> (string \<times> ref list) list
     \<Rightarrow> pyexn + (heap \<times> (string \<times> ref list) list)" where
  "update_objs_loop update_generic rt held objs [] h live = Inr (h, live)"
| "update_objs_loop update_generic rt held objs ((name, new_obj) # items) h live =
     (case map_of objs name of
        None \<Rightarrow> update_objs_loop update_generic rt held objs items h live
      | Some old_obj_refs \<Rightarrow>
          (let live_objs = filter (resolves h) old_obj_refs;
               live' = AList.update name live_objs live
           in (case update_old_objects update_generic rt (held @ concat (map snd live'))
                       live_objs new_obj h of
                 Inl e \<Rightarrow> Inl e
               | Inr h' \<Rightarrow> update_objs_loop update_generic rt held objs items h' live')))"

text \<open>
  \<^verbatim>\<open>_ModuleRefs.update_refs_with_new_module\<close> (without the printing of the verbose mode): the
  fresh \<^verbatim>\<open>_ModuleRefs\<close>, and the heap at the \<^verbatim>\<open>return\<close> statement, where the lists \<^verbatim>\<open>modules\<close> and
  \<^verbatim>\<open>live_old_objects\<close> still hold their objects.
\<close>

definition update_refs_with_new_module ::
  "nat \<Rightarrow> runtime \<Rightarrow> module_refs \<Rightarrow> ref \<Rightarrow> heap \<Rightarrow> pyexn + (heap \<times> module_refs)" where
  "update_refs_with_new_module depth rt self new_module h =
     (let modules = filter (resolves h) (refs_modules self);
          held = new_module # modules;
          h1 = update_old_modules rt held modules new_module h
      in (case update_objs_loop (p_update_generic depth rt) rt held (refs_objs self)
                  (module_items h1 new_module) h1 [] of
            Inl e \<Rightarrow> Inl e
          | Inr (h2, live) \<Rightarrow> Inr (h2, \<lparr>refs_modules = modules, refs_objs = live\<rparr>)))"

section \<open>What the claims speak of\<close>

text \<open>
  The edges of a graph, and "a directed path of length zero or more from \<open>m\<close> to a member
  of \<open>targets\<close>" (so every target reaches the targets).
\<close>

definition edges :: "graph \<Rightarrow> (string \<times> string) set" where
  "edges g = {(a, b). b \<in> set (graph_get g a)}"

definition reaches :: "graph \<Rightarrow> string set \<Rightarrow> string \<Rightarrow> bool" where
  "reaches g targets m \<longleftrightarrow> (\<exists>t \<in> targets. (m, t) \<in> (edges g)\<^sup>*)"

definition graph_nodes :: "graph \<Rightarrow> string set" where
  "graph_nodes g = set (map fst g) \<union> (\<Union>ns \<in> set (map snd g). set ns)"

definition cache_sound :: "graph \<Rightarrow> string set \<Rightarrow> (string \<rightharpoonup> bool) \<Rightarrow> bool" where
  "cache_sound g targets cache \<longleftrightarrow> (\<forall>m b. cache m = Some b \<longrightarrow> b = reaches g targets m)"

text \<open>The invariant of the \<^verbatim>\<open>while\<close> loop for a search that started at \<open>source\<close>.\<close>

definition bfs_inv ::
  "graph \<Rightarrow> string set \<Rightarrow> string \<Rightarrow> string list \<Rightarrow> string set \<Rightarrow> string list \<Rightarrow> bool" where
  "bfs_inv g targets source queue visited enq \<longleftrightarrow>
     source \<in> visited
   \<and> set queue \<subseteq> visited
   \<and> (\<forall>x \<in> visited. (source, x) \<in> (edges g)\<^sup>*)
   \<and> (\<forall>x \<in> visited - set queue.
         \<not> reaches g targets x \<or> (x \<notin> targets \<and> set (graph_get g x) \<subseteq> visited))
   \<and> distinct enq \<and> set enq \<subseteq> visited"

text \<open>A search whose graph and targets are \<open>g\<close> and \<open>targets\<close> and whose cache tells the truth.\<close>

definition search_ok :: "graph \<Rightarrow> string set \<Rightarrow> module_search \<Rightarrow> bool" where
  "search_ok g targets s \<longleftrightarrow>
     ms_graph s = g \<and> ms_targets s = targets \<and> cache_sound g targets (ms_cache s)"

text \<open>
  "The backing source file cannot be resolved": no loaded module object, the module is
  named \<^verbatim>\<open>__main__\<close>, it has no \<^verbatim>\<open>__file__\<close> (or an empty one), or \<^verbatim>\<open>stat\<close> raises \<^verbatim>\<open>OSError\<close>.
\<close>

definition file_unresolved :: "sys_modules \<Rightarrow> file_system \<Rightarrow> string \<Rightarrow> bool" where
  "file_unresolved sm fs name \<longleftrightarrow>
     (case sm name of
        None \<Rightarrow> True
      | Some module \<Rightarrow>
          mod_name module = ''__main__'' \<or> mod_file module = None \<or> mod_file module = Some []
          \<or> (\<exists>f. mod_file module = Some f \<and> fs f = OSError))"

subsection \<open>Example data\<close>

text \<open>
  Modules \<^verbatim>\<open>a\<close> and \<^verbatim>\<open>b\<close> import each other, \<^verbatim>\<open>c\<close> imports neither, \<^verbatim>\<open>pkg\<close> has no file.
\<close>

definition example_modules :: sys_modules where
  "example_modules =
     [''a'' \<mapsto> \<lparr>mod_id = 1, mod_name = ''a'', mod_file = Some ''a.py'',
                 mod_dict = [(''b'', ModuleVal ''b''), (''x'', OtherVal)]\<rparr>,
      ''b'' \<mapsto> \<lparr>mod_id = 2, mod_name = ''b'', mod_file = Some ''b.py'',
                 mod_dict = [(''a'', ModuleVal ''a'')]\<rparr>,
      ''c'' \<mapsto> \<lparr>mod_id = 3, mod_name = ''c'', mod_file = Some ''c.py'',
                 mod_dict = [(''os'', ModuleVal ''os'')]\<rparr>,
      ''pkg'' \<mapsto> \<lparr>mod_id = 4, mod_name = ''pkg'', mod_file = None, mod_dict = []\<rparr>]"

definition example_files :: file_system where
  "example_files f = (if f \<in> {''a.py'', ''b.py'', ''c.py''} then Mtime 10 else OSError)"

definition example_graph :: graph where
  "example_graph = [(''a'', [''b'', ''a'']), (''b'', [''a'']), (''c'', [])]"

definition example_search :: module_search where
  "example_search =
     \<lparr>ms_graph = example_graph, ms_cache = [''b'' \<mapsto> False], ms_targets = {''c''}\<rparr>"

definition example_reloaded :: sys_modules where
  "example_reloaded =
     example_modules
       (''a'' \<mapsto> \<lparr>mod_id = 11, mod_name = ''a'', mod_file = Some ''a.py'',
                  mod_dict = [(''b'', ModuleVal ''b'')]\<rparr>,
        ''b'' \<mapsto> \<lparr>mod_id = 12, mod_name = ''b'', mod_file = Some ''b.py'',
                  mod_dict = [(''a'', ModuleVal ''a'')]\<rparr>)"

definition example_import :: "string list \<Rightarrow> pyexn + sys_modules" where
  "example_import mods = Inr example_reloaded"

definition example_env :: hook_env where
  "example_env =
     \<lparr>env_modules = example_modules, env_files = example_files,
      env_names = [''a'', ''b'', ''c''], env_reload_set = [''c'', ''a'', ''b''],
      env_import = example_import\<rparr>"

definition example_state :: hook_state where
  "example_state =
     \<lparr>last_updates = [''a'' \<mapsto> Some 5, ''b'' \<mapsto> Some 10, ''c'' \<mapsto> Some 10],
      globals_to_update =
        [(''a'', \<lparr>info_name = ''a'', info_instance = \<lparr>mod_id = 1, mod_name = ''a'', mod_file = Some ''a.py'',
                 mod_dict = [(''b'', ModuleVal ''b''), (''x'', OtherVal)]\<rparr>\<rparr>),
         (''bb'', \<lparr>info_name = ''b'', info_instance = \<lparr>mod_id = 2, mod_name = ''b'', mod_file = Some ''b.py'',
                 mod_dict = [(''a'', ModuleVal ''a'')]\<rparr>\<rparr>)],
      user_globals = [''a'' \<mapsto> 1, ''bb'' \<mapsto> 7, ''y'' \<mapsto> 99]\<rparr>"


text \<open>
  The attribute \<open>name\<close> in the own namespace of the object at \<open>r\<close>. The exception, if any,
  that the statement \<^verbatim>\<open>setattr(old, name, getattr(new, name))\<close> raises in the heap \<open>h\<close>. The
  first exception, in the order of \<open>names\<close>, that \<^verbatim>\<open>except (AttributeError, TypeError)\<close> does not
  catch. What the loop of \<^verbatim>\<open>_update_function\<close> leaves in the attribute \<open>name\<close> of \<open>old\<close> when it
  gets to the end: the value of \<open>new\<close> if \<open>new\<close> has the attribute and the assignment is
  carried out, the value it had otherwise.
\<close>

definition own_attr :: "heap \<Rightarrow> ref \<Rightarrow> string \<Rightarrow> ref option" where
  "own_attr h r name = (case h r of None \<Rightarrow> None | Some ob \<Rightarrow> map_of (ob_attrs ob) name)"

definition assignment_raises :: "runtime \<Rightarrow> heap \<Rightarrow> ref \<Rightarrow> ref \<Rightarrow> string \<Rightarrow> pyexn option" where
  "assignment_raises rt h old new name =
     (case py_getattr rt h new name of
        Inl e \<Rightarrow> Some e
      | Inr v \<Rightarrow> rt_setattr rt old name v)"

fun first_uncaught :: "(string \<Rightarrow> pyexn option) \<Rightarrow> string list \<Rightarrow> pyexn option" where
  "first_uncaught raises [] = None"
| "first_uncaught raises (name # names) =
     (case raises name of
        None \<Rightarrow> first_uncaught raises names
      | Some e \<Rightarrow> if caught e then first_uncaught raises names else Some e)"

definition copied_attr :: "runtime \<Rightarrow> heap \<Rightarrow> ref \<Rightarrow> ref \<Rightarrow> string \<Rightarrow> ref option" where
  "copied_attr rt h old new name =
     (case py_getattr rt h new name of
        Inl e \<Rightarrow> own_attr h old name
      | Inr v \<Rightarrow> if rt_setattr rt old name v = None then Some v else own_attr h old name)"

text \<open>The attribute \<open>name\<close> of the object at \<open>r\<close> after a call that returned the heap.\<close>

definition result_attr :: "pyexn + heap \<Rightarrow> ref \<Rightarrow> string \<Rightarrow> pyexn + ref option" where
  "result_attr res r name = (case res of Inl e \<Rightarrow> Inl e | Inr h \<Rightarrow> Inr (own_attr h r name))"

text \<open>
  An example heap. 1 and 2: the old and the new version of a function \<^verbatim>\<open>f\<close>; 33 and 43: the
  old and the new version of a function \<^verbatim>\<open>k\<close>; 3 and 4: the old and the new version of a
  class \<^verbatim>\<open>C\<close>, with the method \<^verbatim>\<open>m\<close> (31, 41) and, in the old version only, \<^verbatim>\<open>gone\<close> (32); 35 and
  45: the mapping proxies that \<^verbatim>\<open>getattr\<close> gives for \<^verbatim>\<open>__dict__\<close> on the two classes; 5: an
  instance of the old \<^verbatim>\<open>C\<close>, 6: one of the new; 7 and 8: the old and the new module, where
  the old one also binds \<^verbatim>\<open>g\<close> to the function 32. The other addresses hold objects the
  patcher only passes on (code objects, dictionaries, descriptors).

  The runtime refuses to assign \<^verbatim>\<open>__closure__\<close> and \<^verbatim>\<open>__globals__\<close>, as CPython does for functions
  (\<^verbatim>\<open>AttributeError: readonly attribute\<close>), and \<^verbatim>\<open>__dict__\<close> of a class. A lookup on a class gives
  the mapping proxy for \<^verbatim>\<open>__dict__\<close> and otherwise what the namespace of the class holds (a
  plain function is its own \<^verbatim>\<open>__get__\<close> on a class). \<^verbatim>\<open>gc.get_referrers\<close> of the old class gives
  its instance and the old module. The old function \<^verbatim>\<open>f\<close> is referred to by the namespace of
  the old module only, so it is freed as soon as that no longer binds it; every other
  object is held from outside (the interactive namespace holds \<^verbatim>\<open>k\<close>, \<^verbatim>\<open>g\<close>, the instances and
  the modules).

  The second runtime is the one of an old function \<^verbatim>\<open>f\<close> that has a free variable where the
  new one has none: CPython refuses the assignment of \<^verbatim>\<open>__code__\<close> with a \<^verbatim>\<open>ValueError\<close>.
\<close>

definition opaque :: pyobj where
  "opaque = \<lparr>ob_kind = KOther, ob_type = 93, ob_attrs = [], ob_true = True\<rparr>"

definition example_function :: "ref \<Rightarrow> pyobj" where
  "example_function base =
     \<lparr>ob_kind = KFunction, ob_type = 90,
      ob_attrs = [(''__code__'', base), (''__defaults__'', base + 1), (''__doc__'', base + 2),
                  (''__closure__'', base + 3), (''__globals__'', base + 4), (''__dict__'', base + 5)],
      ob_true = True\<rparr>"

definition example_heap :: heap where
  "example_heap =
     map_of
       ([(1, example_function 10), (2, example_function 20),
         (3, \<lparr>ob_kind = KClass, ob_type = 91,
               ob_attrs = [(''__dict__'', 30), (''m'', 31), (''gone'', 32)], ob_true = True\<rparr>),
         (4, \<lparr>ob_kind = KClass, ob_type = 91,
               ob_attrs = [(''__dict__'', 40), (''m'', 41)], ob_true = True\<rparr>),
         (5, \<lparr>ob_kind = KOther, ob_type = 3, ob_attrs = [], ob_true = True\<rparr>),
         (6, \<lparr>ob_kind = KOther, ob_type = 4, ob_attrs = [], ob_true = True\<rparr>),
         (7, \<lparr>ob_kind = KModule, ob_type = 94,
               ob_attrs = [(''f'', 1), (''k'', 33), (''C'', 3), (''g'', 32)], ob_true = True\<rparr>),
         (8, \<lparr>ob_kind = KModule, ob_type = 94,
               ob_attrs = [(''f'', 2), (''k'', 43), (''C'', 4)], ob_true = True\<rparr>),
         (31, example_function 50), (32, example_function 60), (41, example_function 70),
         (33, example_function 100), (43, example_function 110)]
        @ map (\<lambda>r. (r, opaque))
            ([10..<16] @ [20..<26] @ [30, 35, 40, 45] @ [50..<56] @ [60..<66] @ [70..<76]
             @ [100..<106] @ [110..<116]))"

definition example_getattr :: "heap \<Rightarrow> ref \<Rightarrow> string \<Rightarrow> pyexn + ref" where
  "example_getattr h r name =
     (if name = ''__dict__'' then Inr (if r = 3 then 35 else 45)
      else (case own_attr h r name of
              None \<Rightarrow> Inl AttributeError
            | Some v \<Rightarrow> Inr v))"

definition example_setattr :: "ref \<Rightarrow> string \<Rightarrow> ref \<Rightarrow> pyexn option" where
  "example_setattr r name v =
     (if name = ''__closure__'' \<or> name = ''__globals__'' \<or> (r \<in> {3, 4} \<and> name = ''__dict__'')
      then Some AttributeError else None)"

definition example_delattr :: "ref \<Rightarrow> string \<Rightarrow> pyexn option" where
  "example_delattr r name = None"

definition example_set_class :: "ref \<Rightarrow> ref \<Rightarrow> pyexn option" where
  "example_set_class r cls = None"

definition example_referrers :: "heap \<Rightarrow> ref \<Rightarrow> ref list" where
  "example_referrers h r = (if r = 3 then [5, 7] else [])"

definition example_collect :: "ref list \<Rightarrow> heap \<Rightarrow> ref \<Rightarrow> bool" where
  "example_collect held h r \<longleftrightarrow> r = 1 \<and> own_attr h 7 ''f'' \<noteq> Some 1"

definition example_runtime :: runtime where
  "example_runtime =
     \<lparr>rt_getattr = example_getattr, rt_setattr = example_setattr, rt_delattr = example_delattr,
      rt_set_class = example_set_class, rt_get_referrers = example_referrers,
      rt_collect = example_collect\<rparr>"

definition closure_setattr :: "ref \<Rightarrow> string \<Rightarrow> ref \<Rightarrow> pyexn option" where
  "closure_setattr r name v =
     (if r = 1 \<and> name = ''__code__'' then Some ValueError else example_setattr r name v)"

definition closure_runtime :: runtime where
  "closure_runtime = example_runtime\<lparr>rt_setattr := closure_setattr\<rparr>"

text \<open>
  The heap \<open>h'\<close> holds the same objects as \<open>h\<close>, each of the kind and with the truth value it
  has in \<open>h\<close>: objects were mutated, none was created, replaced or lost. In a heap that
  shrank, objects may have been freed as well. A run keeps the objects \<open>held\<close> when the heap
  shrinks and none of them is freed.
\<close>

definition shape :: "pyobj \<Rightarrow> kind \<times> bool" where
  "shape ob = (ob_kind ob, ob_true ob)"

definition same_shape :: "heap \<Rightarrow> heap \<Rightarrow> bool" where
  "same_shape h h' \<longleftrightarrow> (\<forall>r. map_option shape (h' r) = map_option shape (h r))"

definition shrinks :: "heap \<Rightarrow> heap \<Rightarrow> bool" where
  "shrinks h h' \<longleftrightarrow> (\<forall>r. h' r = None \<or> map_option shape (h' r) = map_option shape (h r))"

definition keeps :: "ref set \<Rightarrow> heap \<Rightarrow> heap \<Rightarrow> bool" where
  "keeps held h h' \<longleftrightarrow> shrinks h h' \<and> (\<forall>r \<in> held. h' r = None \<longrightarrow> h r = None)"

text \<open>A function in the place of \<^verbatim>\<open>_update_generic\<close> that keeps the shape of the heap.\<close>

definition preserves :: "(ref \<Rightarrow> ref \<Rightarrow> heap \<Rightarrow> pyexn + heap) \<Rightarrow> bool" where
  "preserves g \<longleftrightarrow> (\<forall>a b h h'. g a b h = Inr h' \<longrightarrow> same_shape h h')"

text \<open>
  The entries of \<open>objs\<close> that a pass over the namespace \<open>items\<close> of the new module keeps when
  it keeps the references that satisfy \<open>keep\<close>: one entry for each name of \<open>items\<close> that \<open>objs\<close>
  tracks, in the order of \<open>items\<close>, and none for the other names that \<open>objs\<close> tracks. A
  \<^verbatim>\<open>_ModuleRefs\<close> without the references that do not resolve.
\<close>

fun surviving_objs ::
  "(ref \<Rightarrow> bool) \<Rightarrow> (string \<times> ref list) list \<Rightarrow> (string \<times> ref) list \<Rightarrow> (string \<times> ref list) list" where
  "surviving_objs keep objs [] = []"
| "surviving_objs keep objs ((name, new_obj) # items) =
     (case map_of objs name of
        None \<Rightarrow> surviving_objs keep objs items
      | Some rs \<Rightarrow> (name, filter keep rs) # surviving_objs keep objs items)"

definition prune_refs :: "heap \<Rightarrow> module_refs \<Rightarrow> module_refs" where
  "prune_refs h self =
     \<lparr>refs_modules = filter (resolves h) (refs_modules self),
      refs_objs = map (\<lambda>(name, rs). (name, filter (resolves h) rs)) (refs_objs self)\<rparr>"

text \<open>
  The \<^verbatim>\<open>_ModuleRefs\<close> that a pass returned, and whether the weak reference \<open>r\<close> resolves in the
  heap at its \<^verbatim>\<open>return\<close> statement.
\<close>

definition result_refs :: "pyexn + (heap \<times> module_refs) \<Rightarrow> pyexn + module_refs" where
  "result_refs res = (case res of Inl e \<Rightarrow> Inl e | Inr (h, refs) \<Rightarrow> Inr refs)"

definition result_resolves :: "pyexn + (heap \<times> module_refs) \<Rightarrow> ref \<Rightarrow> bool" where
  "result_resolves res r = (case res of Inl e \<Rightarrow> False | Inr (h, refs) \<Rightarrow> resolves h r)"

text \<open>
  The references kept before a reload in the example heap: the old module (7) and a
  version that is gone (98); under \<^verbatim>\<open>f\<close> the old function (1) and one that is gone (99);
  under \<^verbatim>\<open>k\<close> and \<^verbatim>\<open>C\<close> the old function 33 and the old class 3; under \<^verbatim>\<open>g\<close> the function 32,
  which the new module (8) no longer binds.
\<close>

definition example_refs :: module_refs where
  "example_refs =
     \<lparr>refs_modules = [7, 98],
      refs_objs = [(''f'', [1, 99]), (''k'', [33]), (''C'', [3]), (''g'', [32])]\<rparr>"

section \<open>The reachability search and the reload closure\<close>

lemma finite_graph_nodes: "finite (graph_nodes g)"
  by (simp add: graph_nodes_def)

lemma graph_get_nodes: "set (graph_get g m) \<subseteq> graph_nodes g"
proof (cases "map_of g m")
  case None
  then show ?thesis by (simp add: graph_get_def)
next
  case (Some ns)
  then have "(m, ns) \<in> set g" by (rule map_of_SomeD)
  then have "ns \<in> snd ` set g" by force
  with Some show ?thesis by (auto simp: graph_get_def graph_nodes_def)
qed

lemma visit_neighbours_spec:
  "\<exists>new. visit_neighbours ns queue visited enq = (queue @ new, visited \<union> set ns, enq @ new)
       \<and> distinct new \<and> set new = set ns - visited"
proof (induction ns arbitrary: queue visited enq)
  case Nil
  then show ?case by simp
next
  case (Cons n ns)
  show ?case
  proof (cases "n \<in> visited")
    case True
    from Cons.IH [of queue visited enq] obtain new where
      "visit_neighbours ns queue visited enq = (queue @ new, visited \<union> set ns, enq @ new)"
      "distinct new" "set new = set ns - visited" by blast
    with True show ?thesis by auto
  next
    case False
    from Cons.IH [of "queue @ [n]" "insert n visited" "enq @ [n]"] obtain new where
      new: "visit_neighbours ns (queue @ [n]) (insert n visited) (enq @ [n])
              = ((queue @ [n]) @ new, insert n visited \<union> set ns, (enq @ [n]) @ new)"
      "distinct new" "set new = set ns - insert n visited" by blast
    have "visit_neighbours (n # ns) queue visited enq
            = (queue @ (n # new), visited \<union> set (n # ns), enq @ (n # new))"
      using False new(1) by simp
    moreover have "distinct (n # new)" using new(2,3) by auto
    moreover have "set (n # new) = set (n # ns) - visited" using new(3) False by auto
    ultimately show ?thesis by blast
  qed
qed

lemma reaches_step:
  "(a, b) \<in> (edges g)\<^sup>* \<Longrightarrow> reaches g targets b \<Longrightarrow> reaches g targets a"
  unfolding reaches_def by (meson rtrancl_trans)

lemma closed_no_reach:
  assumes closed: "\<forall>x \<in> V. \<not> reaches g targets x \<or> (x \<notin> targets \<and> set (graph_get g x) \<subseteq> V)"
    and x: "x \<in> V"
  shows "\<not> reaches g targets x"
proof
  assume "reaches g targets x"
  then obtain t where t: "t \<in> targets" and path: "(x, t) \<in> (edges g)\<^sup>*"
    unfolding reaches_def by blast
  from path have "x \<notin> V"
  proof (induction rule: converse_rtrancl_induct)
    case base
    have "reaches g targets t" unfolding reaches_def using t by blast
    with closed t show ?case by blast
  next
    case (step y z)
    have "reaches g targets y"
      unfolding reaches_def using t step.hyps by (meson converse_rtrancl_into_rtrancl)
    moreover have "z \<in> set (graph_get g y)" using step.hyps(1) by (simp add: edges_def)
    ultimately show ?case using closed step.IH by blast
  qed
  with x show False by contradiction
qed

lemma bfs_inv_skip:
  assumes "bfs_inv g targets source (m # rest) visited enq" and "\<not> reaches g targets m"
  shows "bfs_inv g targets source rest visited enq"
  using assms unfolding bfs_inv_def by auto

lemma bfs_inv_expand:
  assumes inv: "bfs_inv g targets source (m # rest) visited enq"
    and m: "m \<notin> targets"
    and new: "distinct new" "set new = set (graph_get g m) - visited"
  shows "bfs_inv g targets source (rest @ new) (visited \<union> set (graph_get g m)) (enq @ new)"
proof -
  let ?ns = "set (graph_get g m)"
  have src: "source \<in> visited" and q: "set (m # rest) \<subseteq> visited"
    and path: "\<forall>x \<in> visited. (source, x) \<in> (edges g)\<^sup>*"
    and closed: "\<forall>x \<in> visited - set (m # rest).
         \<not> reaches g targets x \<or> (x \<notin> targets \<and> set (graph_get g x) \<subseteq> visited)"
    and enq: "distinct enq" "set enq \<subseteq> visited"
    using inv unfolding bfs_inv_def by blast+
  have "(source, m) \<in> (edges g)\<^sup>*" using path q by simp
  then have path': "\<forall>x \<in> visited \<union> ?ns. (source, x) \<in> (edges g)\<^sup>*"
    using path by (auto simp: edges_def intro: rtrancl_into_rtrancl)
  have closed': "\<forall>x \<in> (visited \<union> ?ns) - set (rest @ new).
         \<not> reaches g targets x \<or> (x \<notin> targets \<and> set (graph_get g x) \<subseteq> visited \<union> ?ns)"
  proof
    fix x assume x: "x \<in> (visited \<union> ?ns) - set (rest @ new)"
    then have xv: "x \<in> visited" and xr: "x \<notin> set rest" using new(2) by auto
    show "\<not> reaches g targets x \<or> (x \<notin> targets \<and> set (graph_get g x) \<subseteq> visited \<union> ?ns)"
    proof (cases "x = m")
      case True
      then show ?thesis using m by simp
    next
      case False
      then have "x \<in> visited - set (m # rest)" using xv xr by simp
      with closed show ?thesis by blast
    qed
  qed
  have "distinct (enq @ new)" using enq new by auto
  moreover have "set (enq @ new) \<subseteq> visited \<union> ?ns" using enq new by auto
  moreover have "set (rest @ new) \<subseteq> visited \<union> ?ns" using q new by auto
  ultimately show ?thesis
    unfolding bfs_inv_def using src path' closed' by blast
qed

lemma bfs_measure_expand:
  assumes new: "distinct new" "set new = set (graph_get g m) - visited"
  shows "2 * card (graph_nodes g - (visited \<union> set (graph_get g m))) + length (rest @ new)
           < 2 * card (graph_nodes g - visited) + length (m # rest)"
proof -
  let ?N = "graph_nodes g" and ?ns = "set (graph_get g m)"
  have "?N - visited = (?N - (visited \<union> ?ns)) \<union> set new"
    using new(2) graph_get_nodes [of g m] by auto
  moreover have "(?N - (visited \<union> ?ns)) \<inter> set new = {}" using new(2) by auto
  ultimately have "card (?N - visited) = card (?N - (visited \<union> ?ns)) + card (set new)"
    using card_Un_disjoint [of "?N - (visited \<union> ?ns)" "set new"] finite_graph_nodes [of g]
    by simp
  moreover have "card (set new) = length new" using new(1) by (rule distinct_card)
  ultimately show ?thesis by simp
qed

lemma bfs_loop_correct:
  assumes sound: "cache_sound g targets cache"
    and "bfs_inv g targets source queue visited enq"
  shows "\<exists>b e. bfs_loop g cache targets queue visited enq = Some (b, e)
           \<and> (b \<longleftrightarrow> reaches g targets source) \<and> distinct e"
  using assms(2)
proof (induction "2 * card (graph_nodes g - visited) + length queue"
        arbitrary: queue visited enq rule: less_induct)
  case less
  note inv = less.prems
  show ?case
  proof (cases queue)
    case Nil
    have "\<not> reaches g targets source"
    proof (rule closed_no_reach [where V = visited])
      show "\<forall>x\<in>visited. \<not> reaches g targets x \<or> x \<notin> targets \<and> set (graph_get g x) \<subseteq> visited"
        using inv Nil by (simp add: bfs_inv_def)
      show "source \<in> visited" using inv by (simp add: bfs_inv_def)
    qed
    moreover have "distinct enq" using inv by (simp add: bfs_inv_def)
    ultimately show ?thesis using Nil by (subst bfs_loop.simps) auto
  next
    case (Cons m rest)
    have m_path: "(source, m) \<in> (edges g)\<^sup>*" and d: "distinct enq"
      using inv Cons by (auto simp: bfs_inv_def)
    show ?thesis
    proof (cases "cache m")
      case (Some r)
      then have r: "r = reaches g targets m" using sound by (simp add: cache_sound_def)
      show ?thesis
      proof (cases r)
        case True
        then have "reaches g targets source" using r m_path reaches_step by blast
        then show ?thesis using Cons Some True d by (subst bfs_loop.simps) auto
      next
        case False
        then have "bfs_inv g targets source rest visited enq"
          using inv Cons r bfs_inv_skip by blast
        moreover have "2 * card (graph_nodes g - visited) + length rest
                         < 2 * card (graph_nodes g - visited) + length queue"
          using Cons by simp
        ultimately have "\<exists>b e. bfs_loop g cache targets rest visited enq = Some (b, e)
           \<and> (b \<longleftrightarrow> reaches g targets source) \<and> distinct e"
          using less.hyps by blast
        then show ?thesis using Cons Some False by (subst bfs_loop.simps) auto
      qed
    next
      case None
      show ?thesis
      proof (cases "m \<in> targets")
        case True
        then have "reaches g targets m" unfolding reaches_def by blast
        then have "reaches g targets source" using m_path reaches_step by blast
        then show ?thesis using Cons None True d by (subst bfs_loop.simps) auto
      next
        case False
        obtain new where
          vn: "visit_neighbours (graph_get g m) rest visited enq
                 = (rest @ new, visited \<union> set (graph_get g m), enq @ new)"
          and new: "distinct new" "set new = set (graph_get g m) - visited"
          using visit_neighbours_spec by blast
        have "bfs_inv g targets source (rest @ new) (visited \<union> set (graph_get g m)) (enq @ new)"
          using inv Cons False new bfs_inv_expand by blast
        moreover have "2 * card (graph_nodes g - (visited \<union> set (graph_get g m))) + length (rest @ new)
                         < 2 * card (graph_nodes g - visited) + length queue"
          using bfs_measure_expand [OF new] Cons by simp
        ultimately have "\<exists>b e. bfs_loop g cache targets (rest @ new)
              (visited \<union> set (graph_get g m)) (enq @ new) = Some (b, e)
           \<and> (b \<longleftrightarrow> reaches g targets source) \<and> distinct e"
          using less.hyps by blast
        then show ?thesis using Cons None False vn by (subst bfs_loop.simps) auto
      qed
    qed
  qed
qed

lemma reaches_targets_traced_correct:
  assumes "search_ok g targets s"
  shows "\<exists>e. reaches_targets_traced s source = Some (reaches g targets source, e) \<and> distinct e"
proof -
  have "bfs_inv g targets source [source] {source} [source]"
    by (simp add: bfs_inv_def)
  moreover have "cache_sound g targets (ms_cache s)" using assms by (simp add: search_ok_def)
  ultimately have "\<exists>b e. bfs_loop g (ms_cache s) targets [source] {source} [source] = Some (b, e)
           \<and> (b \<longleftrightarrow> reaches g targets source) \<and> distinct e"
    by (rule bfs_loop_correct [rotated])
  then show ?thesis using assms by (auto simp: reaches_targets_traced_def search_ok_def)
qed

lemma reaches_targets_correct:
  assumes "search_ok g targets s"
  shows "\<exists>s'. reaches_targets s source = Some (reaches g targets source, s') \<and> search_ok g targets s'"
proof -
  obtain e where "reaches_targets_traced s source = Some (reaches g targets source, e)"
    using reaches_targets_traced_correct [OF assms] by blast
  then have "reaches_targets s source
      = Some (reaches g targets source,
              s\<lparr>ms_cache := (ms_cache s)(source \<mapsto> reaches g targets source)\<rparr>)"
    by (simp add: reaches_targets_def p_reaches_targets_def)
  moreover have "search_ok g targets (s\<lparr>ms_cache := (ms_cache s)(source \<mapsto> reaches g targets source)\<rparr>)"
    using assms by (simp add: search_ok_def cache_sound_def)
  ultimately show ?thesis by blast
qed

lemma filter_reaching_correct:
  assumes "search_ok g targets s"
  shows "\<exists>s'. filter_reaching s mods = Some (filter (reaches g targets) mods, s')
            \<and> search_ok g targets s'"
  using assms
proof (induction mods arbitrary: s)
  case Nil
  then show ?case by simp
next
  case (Cons m mods)
  obtain s1 where s1: "reaches_targets s m = Some (reaches g targets m, s1)" "search_ok g targets s1"
    using reaches_targets_correct [OF Cons.prems] by blast
  obtain s2 where s2: "filter_reaching s1 mods = Some (filter (reaches g targets) mods, s2)"
      "search_ok g targets s2"
    using Cons.IH [OF s1(2)] by blast
  show ?case using s1(1) s2 by simp
qed

lemma new_module_search_ok: "search_ok g targets (new_module_search targets g)"
  by (simp add: search_ok_def new_module_search_def cache_sound_def)

lemma create_module_graph_loop_ok:
  "set srcs \<subseteq> dom sm \<Longrightarrow> \<exists>g. create_module_graph_loop nodes sm srcs = Inr g"
  by (induction srcs) auto

lemma reaches_alt:
  "reaches g targets m \<longleftrightarrow> m \<in> targets \<or> (\<exists>t \<in> targets. (m, t) \<in> (edges g)\<^sup>+)"
proof
  assume "reaches g targets m"
  then obtain t where t: "t \<in> targets" "(m, t) \<in> (edges g)\<^sup>*"
    unfolding reaches_def by blast
  from t(2) have "m = t \<or> (m, t) \<in> (edges g)\<^sup>+" by (auto simp: rtrancl_eq_or_trancl)
  with t(1) show "m \<in> targets \<or> (\<exists>t \<in> targets. (m, t) \<in> (edges g)\<^sup>+)" by blast
next
  assume "m \<in> targets \<or> (\<exists>t \<in> targets. (m, t) \<in> (edges g)\<^sup>+)"
  then show "reaches g targets m"
  proof
    assume "m \<in> targets"
    then show ?thesis unfolding reaches_def by blast
  next
    assume "\<exists>t \<in> targets. (m, t) \<in> (edges g)\<^sup>+"
    then obtain t where "t \<in> targets" "(m, t) \<in> (edges g)\<^sup>+" by blast
    then have "t \<in> targets" "(m, t) \<in> (edges g)\<^sup>*" by simp_all
    then show ?thesis unfolding reaches_def by blast
  qed
qed

text \<open>
  Claim C5. For every graph (an association list, hence finite; cycles and self-edges are
  not excluded), every target set and every source, and whatever queries the same search
  object has answered before (\<open>earlier\<close>, which fixes the cache), the breadth-first search
  returns; its result is true exactly if the source is a target or a directed path leads
  from the source to a target; and no node is put in the queue twice in one traversal.
\<close>

theorem bfs_terminates_and_decides:
  "\<exists>mods s b enq.
      filter_reaching (new_module_search targets g) earlier = Some (mods, s)
    \<and> reaches_targets_traced s source = Some (b, enq)
    \<and> p_reaches_targets s source = Some b
    \<and> (b \<longleftrightarrow> source \<in> targets \<or> (\<exists>t \<in> targets. (source, t) \<in> (edges g)\<^sup>+))
    \<and> distinct enq"
proof -
  obtain s where s: "filter_reaching (new_module_search targets g) earlier
                       = Some (filter (reaches g targets) earlier, s)" "search_ok g targets s"
    using filter_reaching_correct [OF new_module_search_ok] by blast
  obtain e where e: "reaches_targets_traced s source = Some (reaches g targets source, e)" "distinct e"
    using reaches_targets_traced_correct [OF s(2)] by blast
  have "p_reaches_targets s source = Some (reaches g targets source)"
    using e(1) by (simp add: p_reaches_targets_def)
  moreover have "reaches g targets source
      \<longleftrightarrow> source \<in> targets \<or> (\<exists>t \<in> targets. (source, t) \<in> (edges g)\<^sup>+)"
    by (rule reaches_alt)
  ultimately show ?thesis using s(1) e by simp
qed

text \<open>
  Claim C1. For the graph built over the watched modules and every dirty set \<open>D\<close> of
  watched modules, the modules selected for reload are exactly the watched modules with a
  directed path of length zero or more to a member of \<open>D\<close>; every member of \<open>D\<close> is selected.
  (The hook runs the selection only when \<open>D\<close> is not empty.)
\<close>

theorem reload_closure:
  assumes loaded: "set reload_set \<subseteq> dom sm"
    and dirty: "D \<subseteq> set reload_set"
  shows "\<exists>g mods. p_create_module_graph reload_set sm = Inr g
           \<and> modules_to_update sm reload_set D = Some (Inr mods)
           \<and> set mods = {m \<in> set reload_set. \<exists>d \<in> D. (m, d) \<in> (edges g)\<^sup>*}
           \<and> D \<subseteq> set mods"
proof -
  obtain g where g: "p_create_module_graph reload_set sm = Inr g"
    using create_module_graph_loop_ok [OF loaded] unfolding p_create_module_graph_def by blast
  obtain s where "filter_reaching (new_module_search D g) reload_set
                       = Some (filter (reaches g D) reload_set, s)"
    using filter_reaching_correct [OF new_module_search_ok] by blast
  then have sel: "modules_to_update sm reload_set D = Some (Inr (filter (reaches g D) reload_set))"
    using g by (simp add: modules_to_update_def)
  have cl: "set (filter (reaches g D) reload_set)
           = {m \<in> set reload_set. \<exists>d \<in> D. (m, d) \<in> (edges g)\<^sup>*}"
    by (auto simp: reaches_def)
  have "D \<subseteq> {m \<in> set reload_set. \<exists>d \<in> D. (m, d) \<in> (edges g)\<^sup>*}"
    using dirty by auto
  then have "D \<subseteq> set (filter (reaches g D) reload_set)" using cl by simp
  with g sel cl show ?thesis by blast
qed

section \<open>The staleness check and the user namespace\<close>

lemma unresolved_iff: "p_get_last_module_update sm fs name = None \<longleftrightarrow> file_unresolved sm fs name"
  by (auto simp: p_get_last_module_update_def file_unresolved_def
           split: option.splits stat_result.splits)

lemma dict_get_upd_other: "k \<noteq> k' \<Longrightarrow> dict_get (d(k' \<mapsto> v)) k = dict_get d k"
  by (simp add: dict_get_def)

lemma find_dirty_modules_spec:
  "distinct names \<Longrightarrow>
   find_dirty_modules sm fs names (dirty, lu)
     = (dirty \<union> {m \<in> set names. is_dirty (dict_get lu m) (p_get_last_module_update sm fs m)},
        (\<lambda>m. if m \<in> set names then Some (p_get_last_module_update sm fs m) else lu m))"
proof (induction names arbitrary: dirty lu)
  case Nil
  then show ?case by simp
next
  case (Cons n names)
  let ?new = "p_get_last_module_update sm fs"
  let ?lu = "lu(n \<mapsto> ?new n)"
  let ?dirty = "if is_dirty (dict_get lu n) (?new n) then insert n dirty else dirty"
  have n: "n \<notin> set names" and d: "distinct names" using Cons.prems by simp_all
  have step: "find_dirty_modules sm fs (n # names) (dirty, lu)
                = find_dirty_modules sm fs names (?dirty, ?lu)"
    by (simp add: Let_def)
  have same: "{m \<in> set names. is_dirty (dict_get ?lu m) (?new m)}
               = {m \<in> set names. is_dirty (dict_get lu m) (?new m)}"
  proof -
    have "\<forall>m \<in> set names. dict_get ?lu m = dict_get lu m"
      using n by (auto simp: dict_get_def)
    then show ?thesis by auto
  qed
  have sets: "?dirty \<union> {m \<in> set names. is_dirty (dict_get lu m) (?new m)}
               = dirty \<union> {m \<in> set (n # names). is_dirty (dict_get lu m) (?new m)}"
    by auto
  have maps: "(\<lambda>m. if m \<in> set names then Some (?new m) else ?lu m)
               = (\<lambda>m. if m \<in> set (n # names) then Some (?new m) else lu m)"
    by (rule ext) simp
  show ?case
    unfolding step Cons.IH [OF d] same sets maps ..
qed

lemma is_dirty_iff:
  "is_dirty prev new \<longleftrightarrow> prev = None \<or> (\<exists>p n. prev = Some p \<and> new = Some n \<and> p < n)"
  by (auto simp: is_dirty_def split: option.splits)

text \<open>
  Claim C3. Over a list of distinct module names, the staleness check returns exactly the
  names whose stored last-known value was unset (absent or \<^verbatim>\<open>None\<close>) or whose current
  modification time is strictly greater than the stored one; and it stores the current
  value (a time, or \<^verbatim>\<open>None\<close>) for every name of the input, dirty or not, and leaves the
  other entries as they were.
\<close>

theorem staleness_check_result:
  assumes "distinct names"
  shows "staleness_check sm fs names lu
           = ({m \<in> set names.
                 dict_get lu m = None
               \<or> (\<exists>p n. dict_get lu m = Some p \<and> p_get_last_module_update sm fs m = Some n \<and> p < n)},
              (\<lambda>m. if m \<in> set names then Some (p_get_last_module_update sm fs m) else lu m))"
  unfolding staleness_check_def find_dirty_modules_spec [OF assms] is_dirty_iff by simp

lemma staleness_check_dirty:
  "distinct names \<Longrightarrow>
   fst (staleness_check sm fs names lu)
     = {m \<in> set names. is_dirty (dict_get lu m) (p_get_last_module_update sm fs m)}"
  by (simp add: staleness_check_def find_dirty_modules_spec)

lemma staleness_check_stored:
  "distinct names \<Longrightarrow>
   snd (staleness_check sm fs names lu)
     = (\<lambda>m. if m \<in> set names then Some (p_get_last_module_update sm fs m) else lu m)"
  by (simp add: staleness_check_def find_dirty_modules_spec)

text \<open>
  Claim C2: the code departs from it. For a watched module whose source file cannot be
  resolved (no loaded module object, the module is named \<^verbatim>\<open>__main__\<close>, it has no \<^verbatim>\<open>__file__\<close>, or
  \<^verbatim>\<open>stat\<close> raises \<^verbatim>\<open>OSError\<close>), the check reports the module dirty exactly if no last-known
  time is stored for it at that check, whatever the stored state: the test
  \<^verbatim>\<open>prev_mtime is None\<close> holds for a module that was never seen and also for one whose time
  was recorded as unavailable. \<^verbatim>\<open>register\<close> and every check record \<^verbatim>\<open>None\<close> for such a module,
  so it is reported dirty at every check, where the claim has it never reported, and the
  comments of the source have a reload only after a change (\<^verbatim>\<open>If a file is updated, trigger
  a reload\<close>, \<^verbatim>\<open>If any of the modules has been updated, trigger a reload\<close>).
\<close>

theorem unresolved_dirty_iff_unset:
  assumes "distinct names" and "m \<in> set names" and "file_unresolved sm fs m"
  shows "m \<in> fst (staleness_check sm fs names lu) \<longleftrightarrow> dict_get lu m = None"
proof -
  have "p_get_last_module_update sm fs m = None" using assms(3) by (simp add: unresolved_iff)
  then show ?thesis
    using assms(1,2) by (auto simp: staleness_check_dirty is_dirty_def split: option.splits)
qed

lemma second_check:
  assumes d: "distinct names"
    and same: "\<forall>m \<in> set names. p_get_last_module_update sm' fs' m = p_get_last_module_update sm fs m"
    and lu: "\<forall>m \<in> set names. lu m = Some (p_get_last_module_update sm fs m)"
  shows "staleness_check sm' fs' names lu
           = ({m \<in> set names. p_get_last_module_update sm fs m = None}, lu)"
proof -
  have "is_dirty (dict_get lu m) (p_get_last_module_update sm' fs' m)
           \<longleftrightarrow> p_get_last_module_update sm fs m = None" if "m \<in> set names" for m
  proof -
    have "dict_get lu m = p_get_last_module_update sm fs m"
      using lu that by (simp add: dict_get_def)
    moreover have "p_get_last_module_update sm' fs' m = p_get_last_module_update sm fs m"
      using same that by simp
    ultimately show ?thesis by (simp add: is_dirty_def split: option.splits)
  qed
  then have "fst (staleness_check sm' fs' names lu) = {m \<in> set names. p_get_last_module_update sm fs m = None}"
    unfolding staleness_check_dirty [OF d] by blast
  moreover have "snd (staleness_check sm' fs' names lu) = lu"
    using same lu by (auto simp: staleness_check_stored [OF d])
  ultimately show ?thesis by (simp add: prod_eq_iff)
qed

lemma later_checks:
  assumes d: "distinct names"
    and same: "\<forall>(sm', fs', names') \<in> set later.
                 names' = names
               \<and> (\<forall>m \<in> set names. p_get_last_module_update sm' fs' m = p_get_last_module_update sm fs m)"
    and lu: "\<forall>m \<in> set names. lu m = Some (p_get_last_module_update sm fs m)"
  shows "\<forall>dirty \<in> set (fst (run_checks later lu)).
            dirty = {m \<in> set names. p_get_last_module_update sm fs m = None}"
  using same
proof (induction later)
  case Nil
  then show ?case by simp
next
  case (Cons e later)
  obtain sm' fs' names' where e: "e = (sm', fs', names')" by (cases e) auto
  have n: "names' = names"
    and s: "\<forall>m \<in> set names. p_get_last_module_update sm' fs' m = p_get_last_module_update sm fs m"
    using Cons.prems e by auto
  have chk: "staleness_check sm' fs' names lu
               = ({m \<in> set names. p_get_last_module_update sm fs m = None}, lu)"
    using second_check [OF d s lu] .
  have "\<forall>dirty \<in> set (fst (run_checks later lu)).
            dirty = {m \<in> set names. p_get_last_module_update sm fs m = None}"
    using Cons.IH Cons.prems by simp
  then show ?case using e n chk by (simp split: prod.splits)
qed

text \<open>
  Claim C4: the code departs from it. A check reports every watched module whose
  last-known value is unset (first observation). Every later check in a row of checks over
  the same names, with the same modification time or the same failure to get one for each
  name, reports exactly the watched modules whose modification time is unavailable: the
  empty set when every watched file can be stat'ed, and never a module whose time is
  available, as the claim says; but a module whose time is unavailable is reported again
  by every check, though nothing changed, because the \<^verbatim>\<open>None\<close> that a check records for it
  reads as "never seen" at the next one.
\<close>

theorem repeated_checks:
  assumes d: "distinct names"
    and same: "\<forall>(sm', fs', names') \<in> set later.
                 names' = names
               \<and> (\<forall>m \<in> set names. p_get_last_module_update sm' fs' m = p_get_last_module_update sm fs m)"
  shows "{m \<in> set names. dict_get lu m = None} \<subseteq> fst (staleness_check sm fs names lu)
       \<and> (\<forall>dirty \<in> set (fst (run_checks later (snd (staleness_check sm fs names lu)))).
             dirty = {m \<in> set names. p_get_last_module_update sm fs m = None})"
proof
  show "{m \<in> set names. dict_get lu m = None} \<subseteq> fst (staleness_check sm fs names lu)"
    by (auto simp: staleness_check_dirty [OF d] is_dirty_def)
  have "\<forall>m \<in> set names. snd (staleness_check sm fs names lu) m = Some (p_get_last_module_update sm fs m)"
    by (simp add: staleness_check_stored [OF d])
  then show "\<forall>dirty \<in> set (fst (run_checks later (snd (staleness_check sm fs names lu)))).
             dirty = {m \<in> set names. p_get_last_module_update sm fs m = None}"
    by (rule later_checks [OF d same])
qed

lemma update_globals_spec:
  "distinct (map fst items) \<Longrightarrow> update_globals mods sm items kg = Inr (kg', items') \<Longrightarrow>
   (case map_of items name of
      None \<Rightarrow> kg' name = kg name
    | Some info \<Rightarrow>
        if info_name info \<in> set mods \<and> kg name = Some (mod_id (info_instance info))
        then \<exists>reloaded. sm (info_name info) = Some reloaded \<and> kg' name = Some (mod_id reloaded)
        else kg' name = kg name)"
proof (induction items arbitrary: kg kg' items')
  case Nil
  then show ?case by simp
next
  case (Cons item items)
  obtain n info where item: "item = (n, info)" by (cases item) auto
  have d: "distinct (map fst items)" and n: "map_of items n = None"
    using Cons.prems(1) item by (auto simp: map_of_eq_None_iff)
  show ?case
  proof (cases "info_name info \<in> set mods \<and> kg n = Some (mod_id (info_instance info))")
    case True
    note c = True
    then obtain reloaded where r: "sm (info_name info) = Some reloaded"
      using Cons.prems(2) item by (auto split: option.splits)
    then obtain items2 where
      rec: "update_globals mods sm items (kg(n \<mapsto> mod_id reloaded)) = Inr (kg', items2)"
      using Cons.prems(2) item True by (auto split: sum.splits)
    note ih = Cons.IH [OF d rec]
    show ?thesis
    proof (cases "name = n")
      case True
      with ih n have "kg' n = Some (mod_id reloaded)" by simp
      then show ?thesis using item True r c by simp
    next
      case False
      then show ?thesis using ih item by (simp split: option.splits)
    qed
  next
    case False
    note nc = False
    then obtain items2 where rec: "update_globals mods sm items kg = Inr (kg', items2)"
      using Cons.prems(2) item by (auto split: sum.splits)
    note ih = Cons.IH [OF d rec]
    show ?thesis
    proof (cases "name = n")
      case True
      with ih n have "kg' n = kg n" by simp
      then show ?thesis using item True nc by auto
    next
      case False
      then show ?thesis using ih item by (simp split: option.splits)
    qed
  qed
qed

text \<open>
  Claim C9. When the hook returns and the user namespace binds \<open>name\<close> to something else
  than before, then \<open>name\<close> is recorded in \<^verbatim>\<open>_globals_to_update\<close>, the recorded module is one of
  the modules the hook reloaded, the name was bound to the very object that was recorded,
  and it is now bound to the module of that name in \<^verbatim>\<open>sys.modules\<close> after the reload. So a
  name that the user has bound to any other object keeps its binding.
\<close>

theorem globals_rebound_only_if_recorded:
  assumes keys: "distinct (map fst (globals_to_update st))"
    and run: "pre_run_cell_maybe_reload env st = Some (Inr st')"
    and changed: "user_globals st' name \<noteq> user_globals st name"
  shows "\<exists>info mods sm' reloaded.
           map_of (globals_to_update st) name = Some info
         \<and> modules_to_update (env_modules env) (env_reload_set env)
             (fst (staleness_check (env_modules env) (env_files env) (env_names env) (last_updates st)))
             = Some (Inr mods)
         \<and> env_import env mods = Inr sm'
         \<and> info_name info \<in> set mods
         \<and> user_globals st name = Some (mod_id (info_instance info))
         \<and> sm' (info_name info) = Some reloaded
         \<and> user_globals st' name = Some (mod_id reloaded)"
proof -
  obtain dirty lu where chk:
    "staleness_check (env_modules env) (env_files env) (env_names env) (last_updates st) = (dirty, lu)"
    by (cases "staleness_check (env_modules env) (env_files env) (env_names env) (last_updates st)")
  have ne: "dirty \<noteq> {}"
  proof
    assume "dirty = {}"
    then have "st' = st\<lparr>last_updates := lu\<rparr>"
      using run chk by (simp add: pre_run_cell_maybe_reload_def)
    then show False using changed by simp
  qed
  obtain mods where mods: "modules_to_update (env_modules env) (env_reload_set env) dirty = Some (Inr mods)"
    using run chk ne by (auto simp: pre_run_cell_maybe_reload_def split: option.splits sum.splits)
  obtain sm' where imp: "env_import env mods = Inr sm'"
    using run chk ne mods by (auto simp: pre_run_cell_maybe_reload_def split: sum.splits)
  obtain kg items where upd:
    "update_globals mods sm' (globals_to_update st) (user_globals st) = Inr (kg, items)"
    and st': "st' = \<lparr>last_updates = lu, globals_to_update = items, user_globals = kg\<rparr>"
    using run chk ne mods imp by (auto simp: pre_run_cell_maybe_reload_def split: sum.splits)
  have kg: "user_globals st' name = kg name" using st' by simp
  note spec = update_globals_spec [OF keys upd, where name = name]
  from spec changed kg obtain info where
    info: "map_of (globals_to_update st) name = Some info"
    by (auto split: option.splits)
  have cond: "info_name info \<in> set mods \<and> user_globals st name = Some (mod_id (info_instance info))"
    using spec changed kg info by (auto split: if_splits)
  then obtain reloaded where "sm' (info_name info) = Some reloaded" "kg name = Some (mod_id reloaded)"
    using spec info by auto
  then show ?thesis using info mods imp cond kg chk by auto
qed

lemmas search_eval = new_module_search_def reaches_targets_def p_reaches_targets_def
  reaches_targets_traced_def bfs_loop.simps graph_get_def

lemmas check_eval = staleness_check_def p_get_last_module_update_def dict_get_def is_dirty_def Let_def

theorem bfs_terminates_and_decides_witness:
  "filter_reaching (new_module_search {''c''} example_graph) [''b''] = Some ([], example_search)
 \<and> reaches_targets_traced example_search ''a'' = Some (False, [''a'', ''b''])
 \<and> \<not> (\<exists>t \<in> {''c''}. (''a'', t) \<in> (edges example_graph)\<^sup>+)"
proof -
  have ev2: "filter_reaching (new_module_search {''c''} example_graph) [''b''] = Some ([], example_search)"
    by (simp add: example_graph_def example_search_def search_eval)
  have ev3: "reaches_targets_traced example_search ''a'' = Some (False, [''a'', ''b''])"
    by (simp add: example_graph_def example_search_def search_eval)
  obtain mods s b enq where
    "filter_reaching (new_module_search {''c''} example_graph) [''b''] = Some (mods, s)"
    "reaches_targets_traced s ''a'' = Some (b, enq)"
    "b \<longleftrightarrow> ''a'' \<in> {''c''} \<or> (\<exists>t \<in> {''c''}. (''a'', t) \<in> (edges example_graph)\<^sup>+)"
    using bfs_terminates_and_decides [of "{''c''}" example_graph "[''b'']" "''a''"] by blast
  then have "\<not> (\<exists>t \<in> {''c''}. (''a'', t) \<in> (edges example_graph)\<^sup>+)"
    using ev2 ev3 by simp
  then show ?thesis using ev2 ev3 by blast
qed

theorem reload_closure_witness:
  "set [''a'', ''b'', ''c''] \<subseteq> dom example_modules
 \<and> {''a''} \<subseteq> set [''a'', ''b'', ''c'']
 \<and> (\<exists>g. p_create_module_graph [''a'', ''b'', ''c''] example_modules = Inr g
        \<and> modules_to_update example_modules [''a'', ''b'', ''c''] {''a''} = Some (Inr [''a'', ''b''])
        \<and> set [''a'', ''b''] = {m \<in> set [''a'', ''b'', ''c'']. \<exists>d \<in> {''a''}. (m, d) \<in> (edges g)\<^sup>*})"
proof -
  have h1: "set [''a'', ''b'', ''c''] \<subseteq> dom example_modules"
    by (simp add: example_modules_def)
  have h2: "{''a''} \<subseteq> set [''a'', ''b'', ''c'']" by simp
  have ev: "modules_to_update example_modules [''a'', ''b'', ''c''] {''a''} = Some (Inr [''a'', ''b''])"
    by (simp add: modules_to_update_def p_create_module_graph_def example_modules_def search_eval)
  obtain g mods where
    "p_create_module_graph [''a'', ''b'', ''c''] example_modules = Inr g"
    "modules_to_update example_modules [''a'', ''b'', ''c''] {''a''} = Some (Inr mods)"
    "set mods = {m \<in> set [''a'', ''b'', ''c'']. \<exists>d \<in> {''a''}. (m, d) \<in> (edges g)\<^sup>*}"
    using reload_closure [OF h1 h2] by blast
  then show ?thesis using h1 h2 ev by auto
qed

theorem staleness_check_result_witness:
  "distinct [''a'', ''b'', ''pkg'']
 \<and> fst (staleness_check example_modules example_files [''a'', ''b'', ''pkg'']
          [''a'' \<mapsto> Some 5, ''b'' \<mapsto> Some 10]) = {''pkg'', ''a''}
 \<and> snd (staleness_check example_modules example_files [''a'', ''b'', ''pkg'']
          [''a'' \<mapsto> Some 5, ''b'' \<mapsto> Some 10]) ''b'' = Some (Some 10)"
proof -
  have d: "distinct [''a'', ''b'', ''pkg'']" by simp
  have a: "p_get_last_module_update example_modules example_files ''a'' = Some 10"
    and b: "p_get_last_module_update example_modules example_files ''b'' = Some 10"
    and p: "p_get_last_module_update example_modules example_files ''pkg'' = None"
    by (simp_all add: p_get_last_module_update_def example_modules_def example_files_def)
  show ?thesis
    unfolding staleness_check_result [OF d]
    using a b p by (auto simp: dict_get_def)
qed

text \<open>
  The input on which the code departs from claim C2: the module \<^verbatim>\<open>pkg\<close> has no \<^verbatim>\<open>__file__\<close>;
  \<^verbatim>\<open>register\<close> stores \<^verbatim>\<open>None\<close> for it, and the first check after that reports it dirty.
\<close>

theorem unresolved_module_dirty_counterexample:
  "file_unresolved example_modules example_files ''pkg''
 \<and> ''pkg'' \<in> fst (staleness_check example_modules example_files [''pkg'']
                     (register_loop example_modules example_files [''pkg''] Map.empty))"
  by (simp add: file_unresolved_def example_modules_def example_files_def check_eval)

theorem unresolved_dirty_iff_unset_witness:
  "distinct [''a'', ''pkg''] \<and> ''pkg'' \<in> set [''a'', ''pkg'']
 \<and> file_unresolved example_modules example_files ''pkg''
 \<and> dict_get [''a'' \<mapsto> Some 5] ''pkg'' = None
 \<and> ''pkg'' \<in> fst (staleness_check example_modules example_files [''a'', ''pkg''] [''a'' \<mapsto> Some 5])"
proof -
  have d: "distinct [''a'', ''pkg'']" and m: "''pkg'' \<in> set [''a'', ''pkg'']" by simp_all
  have u: "file_unresolved example_modules example_files ''pkg''"
    by (simp add: file_unresolved_def example_modules_def)
  have g: "dict_get [''a'' \<mapsto> Some 5] ''pkg'' = None" by (simp add: dict_get_def)
  show ?thesis using unresolved_dirty_iff_unset [OF d m u, of "[''a'' \<mapsto> Some 5]"] d m u g by simp
qed

text \<open>
  The input on which the code departs from claim C4: two checks in a row over the module
  \<^verbatim>\<open>pkg\<close>, which has no file at either check; nothing changes in between, and the second
  check reports it dirty again.
\<close>

theorem second_check_not_empty_counterexample:
  "fst (run_checks [(example_modules, example_files, [''pkg'']),
                    (example_modules, example_files, [''pkg''])] Map.empty)
     = [{''pkg''}, {''pkg''}]"
  by (simp add: example_modules_def example_files_def check_eval)

theorem repeated_checks_witness:
  "distinct [''a'', ''b'']
 \<and> ''b'' \<in> fst (staleness_check example_modules example_files [''a'', ''b''] [''a'' \<mapsto> Some 5])
 \<and> set (fst (run_checks
        [(example_modules, example_files, [''a'', ''b'']), (example_modules, example_files, [''a'', ''b''])]
        (snd (staleness_check example_modules example_files [''a'', ''b''] [''a'' \<mapsto> Some 5]))))
      \<subseteq> {{}}"
proof -
  have d: "distinct [''a'', ''b'']" by simp
  have same: "\<forall>(sm', fs', names') \<in> set [(example_modules, example_files, [''a'', ''b'']),
                                          (example_modules, example_files, [''a'', ''b''])].
                 names' = [''a'', ''b'']
               \<and> (\<forall>m \<in> set [''a'', ''b'']. p_get_last_module_update sm' fs' m
                     = p_get_last_module_update example_modules example_files m)"
    by simp
  have none: "{m \<in> set [''a'', ''b'']. p_get_last_module_update example_modules example_files m = None} = {}"
    by (auto simp: p_get_last_module_update_def example_modules_def example_files_def)
  have unset: "''b'' \<in> {m \<in> set [''a'', ''b'']. dict_get [''a'' \<mapsto> Some 5] m = None}"
    by (simp add: dict_get_def)
  note inst = repeated_checks [OF d same, of "[''a'' \<mapsto> Some 5]"]
  have first: "''b'' \<in> fst (staleness_check example_modules example_files [''a'', ''b''] [''a'' \<mapsto> Some 5])"
    using inst unset by blast
  have later: "set (fst (run_checks
        [(example_modules, example_files, [''a'', ''b'']), (example_modules, example_files, [''a'', ''b''])]
        (snd (staleness_check example_modules example_files [''a'', ''b''] [''a'' \<mapsto> Some 5]))))
      \<subseteq> {{}}"
    using inst unfolding none by blast
  show ?thesis using d first later by blast
qed

theorem globals_rebound_only_if_recorded_witness:
  "distinct (map fst (globals_to_update example_state))
 \<and> (\<exists>st'. pre_run_cell_maybe_reload example_env example_state = Some (Inr st')
        \<and> user_globals example_state ''a'' = Some 1
        \<and> user_globals st' ''a'' = Some 11
        \<and> user_globals st' ''bb'' = user_globals example_state ''bb''
        \<and> (\<exists>info mods. map_of (globals_to_update example_state) ''a'' = Some info
              \<and> info_name info \<in> set mods
              \<and> user_globals example_state ''a'' = Some (mod_id (info_instance info))))"
proof -
  have d: "distinct (map fst (globals_to_update example_state))"
    by (simp add: example_state_def)
  have "\<exists>st'. pre_run_cell_maybe_reload example_env example_state = Some (Inr st')
          \<and> user_globals st' ''a'' = Some 11 \<and> user_globals st' ''bb'' = Some 7"
    by (simp add: pre_run_cell_maybe_reload_def example_env_def example_state_def
          example_modules_def example_files_def example_import_def example_reloaded_def
          check_eval modules_to_update_def p_create_module_graph_def search_eval)
  then obtain st' where run: "pre_run_cell_maybe_reload example_env example_state = Some (Inr st')"
    and kg: "user_globals st' ''a'' = Some 11" "user_globals st' ''bb'' = Some 7" by blast
  have old: "user_globals example_state ''a'' = Some 1" "user_globals example_state ''bb'' = Some 7"
    by (simp_all add: example_state_def)
  have changed: "user_globals st' ''a'' \<noteq> user_globals example_state ''a''"
    using kg old by simp
  from globals_rebound_only_if_recorded [OF d run changed]
  have "\<exists>info mods. map_of (globals_to_update example_state) ''a'' = Some info
              \<and> info_name info \<in> set mods
              \<and> user_globals example_state ''a'' = Some (mod_id (info_instance info))"
    by blast
  then show ?thesis using d run kg old by auto
qed

section \<open>The update rules\<close>

lemma update_rules_no_rule:
  assumes "old = new \<or> \<not> (\<exists>k \<in> {KClass, KFunction, KMethod, KProperty}. kind_of h old = k \<and> kind_of h new = k)"
  shows "update_rules g rt old new h = Inr h"
  using assms by (auto simp: update_rules_def)

text \<open>
  Claim C10. When \<open>old\<close> and \<open>new\<close> are the same object, or no type of \<^verbatim>\<open>_UPDATE_RULES\<close> (class,
  function, bound method, property) has both as instances, \<^verbatim>\<open>_update_generic\<close> returns
  without raising and the heap is the one it was given: neither object is modified, nor
  any other. A function that became a class is such a pair.
\<close>

theorem update_generic_no_rule:
  assumes "old = new \<or> \<not> (\<exists>k \<in> {KClass, KFunction, KMethod, KProperty}. kind_of h old = k \<and> kind_of h new = k)"
  shows "p_update_generic depth rt old new h = Inr h"
  using assms by (cases depth) (simp_all add: update_rules_no_rule)

lemma py_getattr_own:
  "kind_of h r \<noteq> KClass \<Longrightarrow>
   py_getattr rt h r name
     = (case own_attr h r name of None \<Rightarrow> Inl AttributeError | Some v \<Rightarrow> Inr v)"
  by (auto simp: py_getattr_def kind_of_def own_attr_def split: option.splits)

lemma own_attr_set:
  "h old = Some ob \<Longrightarrow>
   own_attr (h(old \<mapsto> ob\<lparr>ob_attrs := AList.update n v (ob_attrs ob)\<rparr>)) r name
     = (if r = old \<and> name = n then Some v else own_attr h r name)"
  by (simp add: own_attr_def update_conv')

lemma kind_of_set: "h old = Some ob \<Longrightarrow> kind_of (h(old \<mapsto> ob\<lparr>ob_attrs := al\<rparr>)) r = kind_of h r"
  by (simp add: kind_of_def)

lemma first_uncaught_cong:
  "(\<And>n. n \<in> set names \<Longrightarrow> f n = g n) \<Longrightarrow> first_uncaught f names = first_uncaught g names"
  by (induction names) (simp_all split: option.splits)

lemma update_function_loop_outcome:
  assumes "h old = Some ob" and "distinct names" and "kind_of h new \<noteq> KClass"
  shows "case first_uncaught (assignment_raises rt h old new) names of
           Some e \<Rightarrow> update_function_loop rt old new names h = Inl e
         | None \<Rightarrow>
             (\<exists>al. update_function_loop rt old new names h = Inr (h(old \<mapsto> ob\<lparr>ob_attrs := al\<rparr>))
                \<and> (\<forall>name. map_of al name =
                      (if name \<in> set names then copied_attr rt h old new name
                       else map_of (ob_attrs ob) name)))"
  using assms
proof (induction names arbitrary: h ob)
  case Nil
  have eq: "h(old \<mapsto> ob) = h" using Nil.prems(1) by auto
  have "\<exists>al. update_function_loop rt old new [] h = Inr (h(old \<mapsto> ob\<lparr>ob_attrs := al\<rparr>))
          \<and> (\<forall>name. map_of al name = map_of (ob_attrs ob) name)"
    by (rule exI [of _ "ob_attrs ob"]) (simp add: eq)
  then show ?case by simp
next
  case (Cons n ns)
  have n: "n \<notin> set ns" and d: "distinct ns" using Cons.prems(2) by simp_all
  note ho = Cons.prems(1)
  note kn = Cons.prems(3)
  have own: "own_attr h old n = map_of (ob_attrs ob) n"
    using ho by (simp add: own_attr_def)
  have get: "py_getattr rt h new n
               = (case own_attr h new n of None \<Rightarrow> Inl AttributeError | Some v \<Rightarrow> Inr v)"
    using kn by (rule py_getattr_own)
  have skip: ?case
    if step: "update_function_loop rt old new (n # ns) h = update_function_loop rt old new ns h"
      and first: "first_uncaught (assignment_raises rt h old new) (n # ns)
                    = first_uncaught (assignment_raises rt h old new) ns"
      and c: "copied_attr rt h old new n = own_attr h old n"
  proof (cases "first_uncaught (assignment_raises rt h old new) ns")
    case (Some e)
    with Cons.IH [OF ho d kn] step first show ?thesis by simp
  next
    case None
    with Cons.IH [OF ho d kn] obtain al where
      al: "update_function_loop rt old new ns h = Inr (h(old \<mapsto> ob\<lparr>ob_attrs := al\<rparr>))"
      "\<forall>name. map_of al name =
          (if name \<in> set ns then copied_attr rt h old new name else map_of (ob_attrs ob) name)"
      by auto
    have "\<forall>name. map_of al name =
                 (if name \<in> set (n # ns) then copied_attr rt h old new name
                  else map_of (ob_attrs ob) name)"
      using al(2) n c own by auto
    with al(1) step first None show ?thesis by auto
  qed
  show ?case
  proof (cases "own_attr h new n")
    case None
    then have g: "py_getattr rt h new n = Inl AttributeError" using get by simp
    have "assignment_raises rt h old new n = Some AttributeError"
      using g by (simp add: assignment_raises_def)
    then have first: "first_uncaught (assignment_raises rt h old new) (n # ns)
                    = first_uncaught (assignment_raises rt h old new) ns"
      by (simp add: caught_def)
    have step: "update_function_loop rt old new (n # ns) h = update_function_loop rt old new ns h"
      using g by (simp add: caught_def)
    have c: "copied_attr rt h old new n = own_attr h old n"
      using g by (simp add: copied_attr_def)
    show ?thesis by (rule skip [OF step first c])
  next
    case (Some v)
    then have g: "py_getattr rt h new n = Inr v" using get by simp
    have ar: "assignment_raises rt h old new n = rt_setattr rt old n v"
      using g by (simp add: assignment_raises_def)
    show ?thesis
    proof (cases "rt_setattr rt old n v")
      case e: (Some e)
      have set: "py_setattr rt h old n v = Inl e" using e by (simp add: py_setattr_def)
      show ?thesis
      proof (cases "caught e")
        case True
        have first: "first_uncaught (assignment_raises rt h old new) (n # ns)
                    = first_uncaught (assignment_raises rt h old new) ns"
          using ar e True by simp
        have step: "update_function_loop rt old new (n # ns) h = update_function_loop rt old new ns h"
          using g set True by simp
        have c: "copied_attr rt h old new n = own_attr h old n"
          using g e by (simp add: copied_attr_def)
        show ?thesis by (rule skip [OF step first c])
      next
        case False
        have "first_uncaught (assignment_raises rt h old new) (n # ns) = Some e"
          using ar e False by simp
        moreover have "update_function_loop rt old new (n # ns) h = Inl e"
          using g set False by simp
        ultimately show ?thesis by simp
      qed
    next
      case None
      let ?ob1 = "ob\<lparr>ob_attrs := AList.update n v (ob_attrs ob)\<rparr>"
      let ?h1 = "h(old \<mapsto> ?ob1)"
      have set: "py_setattr rt h old n v = Inr ?h1"
        using None ho by (simp add: py_setattr_def)
      have step: "update_function_loop rt old new (n # ns) h = update_function_loop rt old new ns ?h1"
        using g set by simp
      have first: "first_uncaught (assignment_raises rt h old new) (n # ns)
                    = first_uncaught (assignment_raises rt h old new) ns"
        using ar None by simp
      have h1: "?h1 old = Some ?ob1" by simp
      have k1: "kind_of ?h1 new \<noteq> KClass" using kn ho by (simp add: kind_of_set)
      have getsame: "py_getattr rt ?h1 new name = py_getattr rt h new name" if "name \<noteq> n" for name
        using that kn k1 ho by (simp add: py_getattr_own own_attr_set)
      have ownsame: "own_attr ?h1 old name = own_attr h old name" if "name \<noteq> n" for name
        using that ho by (simp add: own_attr_set)
      have raises: "assignment_raises rt ?h1 old new name = assignment_raises rt h old new name"
        if "name \<in> set ns" for name
      proof -
        have "name \<noteq> n" using that n by auto
        then show ?thesis by (simp add: assignment_raises_def getsame)
      qed
      have first1: "first_uncaught (assignment_raises rt ?h1 old new) ns
                      = first_uncaught (assignment_raises rt h old new) ns"
        by (rule first_uncaught_cong) (rule raises)
      have same: "copied_attr rt ?h1 old new name = copied_attr rt h old new name"
        if "name \<noteq> n" for name
        using that by (simp add: copied_attr_def getsame ownsame split: sum.splits)
      have now: "copied_attr rt h old new n = Some v"
        using g None by (simp add: copied_attr_def)
      note ih = Cons.IH [OF h1 d k1, unfolded first1]
      show ?thesis
      proof (cases "first_uncaught (assignment_raises rt h old new) ns")
        case (Some e)
        with ih have "update_function_loop rt old new ns ?h1 = Inl e" by simp
        then show ?thesis unfolding step first Some by simp
      next
        case none: None
        with ih obtain al where
          al: "update_function_loop rt old new ns ?h1 = Inr (?h1(old \<mapsto> ?ob1\<lparr>ob_attrs := al\<rparr>))"
          "\<forall>name. map_of al name =
              (if name \<in> set ns then copied_attr rt ?h1 old new name else map_of (ob_attrs ?ob1) name)"
          by auto
        have "\<forall>name. map_of al name =
                 (if name \<in> set (n # ns) then copied_attr rt h old new name
                  else map_of (ob_attrs ob) name)"
        proof
          fix name
          show "map_of al name =
                 (if name \<in> set (n # ns) then copied_attr rt h old new name
                  else map_of (ob_attrs ob) name)"
          proof (cases "name = n")
            case True
            then show ?thesis using al(2) n now by (simp add: update_conv')
          next
            case False
            then show ?thesis using al(2) same [OF False] by (simp add: update_conv')
          qed
        qed
        moreover have "update_function_loop rt old new (n # ns) h = Inr (h(old \<mapsto> ob\<lparr>ob_attrs := al\<rparr>))"
          using al(1) step by simp
        ultimately show ?thesis using first none by auto
      qed
    qed
  qed
qed

text \<open>
  Claim C6, amended. For an old object of the heap and a new one that is no class (as the
  functions that the rule is applied to), \<^verbatim>\<open>_update_function\<close> goes through \<^verbatim>\<open>__code__\<close>,
  \<^verbatim>\<open>__defaults__\<close>, \<^verbatim>\<open>__doc__\<close>, \<^verbatim>\<open>__closure__\<close>, \<^verbatim>\<open>__globals__\<close> and \<^verbatim>\<open>__dict__\<close> in this order. If the
  assignment of one of them raises an exception other than \<^verbatim>\<open>AttributeError\<close> and \<^verbatim>\<open>TypeError\<close>,
  the first such exception in this order is the outcome of the call. Otherwise the call
  returns; the heap differs at the address of \<open>old\<close> only, where the same object (same
  kind, class and truth value) has a new namespace: each of the six attributes holds the
  value of \<open>new\<close> if \<open>new\<close> has the attribute and the runtime carries the assignment out, and
  its former value if the assignment raised \<^verbatim>\<open>AttributeError\<close> or \<^verbatim>\<open>TypeError\<close>; every other
  attribute is as before. So every holder of a reference to \<open>old\<close> sees the copied
  attributes.
\<close>

theorem update_function_copies_writable:
  assumes "h old = Some ob" and "kind_of h new \<noteq> KClass"
  shows "case first_uncaught (assignment_raises rt h old new) function_attributes of
           Some e \<Rightarrow> p_update_function rt old new h = Inl e
         | None \<Rightarrow>
             (\<exists>al. p_update_function rt old new h = Inr (h(old \<mapsto> ob\<lparr>ob_attrs := al\<rparr>))
                \<and> (\<forall>name. map_of al name =
                      (if name \<in> set function_attributes then copied_attr rt h old new name
                       else map_of (ob_attrs ob) name)))"
proof -
  have "distinct function_attributes" by (simp add: function_attributes_def)
  from update_function_loop_outcome [where h = h and old = old and ob = ob and rt = rt and new = new,
      OF assms(1) this assms(2)]
  show ?thesis unfolding p_update_function_def .
qed

lemmas heap_eval = example_heap_def example_function_def opaque_def py_getattr_def py_setattr_def
  py_delattr_def py_set_class_def caught_def example_runtime_def example_getattr_def
  example_setattr_def example_delattr_def example_set_class_def example_referrers_def
  example_collect_def kind_of_def own_attr_def

text \<open>
  Claim C6 as stated fails: the runtime refuses the assignment of \<^verbatim>\<open>__closure__\<close> (a read-only
  attribute of a function), the \<^verbatim>\<open>AttributeError\<close> is caught, and the old function keeps its
  closure (13) while the new one has 23; \<^verbatim>\<open>__code__\<close> is copied (20).
\<close>

theorem closure_not_copied_counterexample:
  "py_getattr example_runtime example_heap 2 ''__closure__'' = Inr 23
 \<and> result_attr (p_update_function example_runtime 1 2 example_heap) 1 ''__closure__'' = Inr (Some 13)
 \<and> result_attr (p_update_function example_runtime 1 2 example_heap) 1 ''__code__'' = Inr (Some 20)"
  by (simp add: result_attr_def p_update_function_def function_attributes_def heap_eval)

theorem update_generic_no_rule_witness:
  "kind_of example_heap 1 = KFunction \<and> kind_of example_heap 4 = KClass
 \<and> p_update_generic 1000 example_runtime 1 4 example_heap = Inr example_heap"
proof -
  have k: "kind_of example_heap 1 = KFunction" "kind_of example_heap 4 = KClass"
    by (simp_all add: heap_eval)
  then have "1 = (4::nat) \<or> \<not> (\<exists>k \<in> {KClass, KFunction, KMethod, KProperty}.
      kind_of example_heap 1 = k \<and> kind_of example_heap 4 = k)" by simp
  from update_generic_no_rule [OF this] k show ?thesis by simp
qed

theorem update_function_copies_writable_witness:
  "example_heap 1 = Some (example_function 10)
 \<and> kind_of example_heap 2 = KFunction
 \<and> first_uncaught (assignment_raises example_runtime example_heap 1 2) function_attributes = None
 \<and> (\<exists>al. p_update_function example_runtime 1 2 example_heap
            = Inr (example_heap(1 \<mapsto> example_function 10\<lparr>ob_attrs := al\<rparr>))
        \<and> map_of al ''__code__'' = Some 20 \<and> map_of al ''__closure__'' = Some 13)
 \<and> first_uncaught (assignment_raises closure_runtime example_heap 1 2) function_attributes
     = Some ValueError
 \<and> p_update_function closure_runtime 1 2 example_heap = Inl ValueError"
proof -
  have h: "example_heap 1 = Some (example_function 10)" by (simp add: example_heap_def)
  have k: "kind_of example_heap 2 = KFunction" by (simp add: heap_eval)
  then have k': "kind_of example_heap 2 \<noteq> KClass" by simp
  have f1: "first_uncaught (assignment_raises example_runtime example_heap 1 2) function_attributes = None"
    by (simp add: assignment_raises_def function_attributes_def heap_eval)
  have f2: "first_uncaught (assignment_raises closure_runtime example_heap 1 2) function_attributes
              = Some ValueError"
    by (simp add: assignment_raises_def function_attributes_def closure_runtime_def
          closure_setattr_def heap_eval)
  have a: "copied_attr example_runtime example_heap 1 2 ''__code__'' = Some 20"
    "copied_attr example_runtime example_heap 1 2 ''__closure__'' = Some 13"
    by (simp_all add: copied_attr_def heap_eval)
  from update_function_copies_writable [where h = example_heap and old = 1 and new = 2
      and rt = example_runtime, OF h k'] f1
  obtain al where
    "p_update_function example_runtime 1 2 example_heap
            = Inr (example_heap(1 \<mapsto> example_function 10\<lparr>ob_attrs := al\<rparr>))"
    "\<forall>name. map_of al name =
                 (if name \<in> set function_attributes then copied_attr example_runtime example_heap 1 2 name
                  else map_of (ob_attrs (example_function 10)) name)"
    by auto
  then have r1: "\<exists>al. p_update_function example_runtime 1 2 example_heap
            = Inr (example_heap(1 \<mapsto> example_function 10\<lparr>ob_attrs := al\<rparr>))
        \<and> map_of al ''__code__'' = Some 20 \<and> map_of al ''__closure__'' = Some 13"
    using a by (auto simp: function_attributes_def)
  from update_function_copies_writable [where h = example_heap and old = 1 and new = 2
      and rt = closure_runtime, OF h k'] f2
  have r2: "p_update_function closure_runtime 1 2 example_heap = Inl ValueError" by simp
  show ?thesis using h k f1 r1 f2 r2 by blast
qed

section \<open>The patch pass over a snapshot\<close>

lemma same_shape_refl: "same_shape h h"
  by (simp add: same_shape_def)

lemma same_shape_trans: "same_shape h1 h2 \<Longrightarrow> same_shape h2 h3 \<Longrightarrow> same_shape h1 h3"
  by (simp add: same_shape_def)

lemma same_shape_upd:
  assumes "h r = Some ob" and "shape ob' = shape ob"
  shows "same_shape h (h(r \<mapsto> ob'))"
  using assms by (simp add: same_shape_def)

lemma py_setattr_shape: "py_setattr rt h r name v = Inr h' \<Longrightarrow> same_shape h h'"
  by (auto simp: py_setattr_def split: option.splits intro!: same_shape_upd simp: shape_def)

lemma py_delattr_shape: "py_delattr rt h r name = Inr h' \<Longrightarrow> same_shape h h'"
  by (auto simp: py_delattr_def split: option.splits if_splits intro!: same_shape_upd simp: shape_def)

lemma py_set_class_shape: "py_set_class rt h r cls = Inr h' \<Longrightarrow> same_shape h h'"
  by (auto simp: py_set_class_def split: option.splits intro!: same_shape_upd simp: shape_def)

lemma update_function_loop_shape:
  "update_function_loop rt old new names h = Inr h' \<Longrightarrow> same_shape h h'"
proof (induction names arbitrary: h)
  case Nil
  then show ?case by (simp add: same_shape_refl)
next
  case (Cons n ns)
  show ?case
  proof (cases "py_getattr rt h new n")
    case (Inl e)
    with Cons show ?thesis by (simp split: if_splits)
  next
    case (Inr v)
    note v = Inr
    show ?thesis
    proof (cases "py_setattr rt h old n v")
      case (Inl e)
      with Cons v show ?thesis by (simp split: if_splits)
    next
      case (Inr h1)
      then have "same_shape h h1" by (rule py_setattr_shape)
      moreover have "same_shape h1 h'" using Cons v Inr by simp
      ultimately show ?thesis by (rule same_shape_trans)
    qed
  qed
qed

lemma update_function_shape: "p_update_function rt old new h = Inr h' \<Longrightarrow> same_shape h h'"
  unfolding p_update_function_def by (rule update_function_loop_shape)

lemma update_method_shape: "update_method rt a b h = Inr h' \<Longrightarrow> same_shape h h'"
  by (auto simp: update_method_def split: sum.splits dest: update_function_shape)

lemma update_instances_loop_shape:
  "update_instances_loop rt old new refs h = Inr h' \<Longrightarrow> same_shape h h'"
proof (induction refs arbitrary: h)
  case Nil
  then show ?case by (simp add: same_shape_refl)
next
  case (Cons r refs)
  show ?case
  proof (cases "h r")
    case None
    with Cons show ?thesis by simp
  next
    case (Some ob)
    show ?thesis
    proof (cases "ob_type ob = old")
      case False
      with Cons Some show ?thesis by simp
    next
      case True
      then obtain h1 where h1: "py_set_class rt h r new = Inr h1"
        and rest: "update_instances_loop rt old new refs h1 = Inr h'"
        using Cons.prems Some by (auto split: sum.splits)
      have "same_shape h h1" using h1 by (rule py_set_class_shape)
      moreover have "same_shape h1 h'" using rest by (rule Cons.IH)
      ultimately show ?thesis by (rule same_shape_trans)
    qed
  qed
qed

lemma update_instances_shape: "p_update_instances rt old new h = Inr h' \<Longrightarrow> same_shape h h'"
  unfolding p_update_instances_def by (rule update_instances_loop_shape)

lemma update_class_loop_shape:
  assumes g: "preserves g"
  shows "update_class_loop g rt old new keys h = Inr h' \<Longrightarrow> same_shape h h'"
proof (induction keys arbitrary: h)
  case Nil
  then show ?case by (simp add: same_shape_refl)
next
  case (Cons key keys)
  from Cons.prems obtain old_obj where oo: "py_getattr rt h old key = Inr old_obj"
    by (auto split: sum.splits)
  show ?case
  proof (cases "py_getattr rt h new key")
    case (Inl e)
    note absent = Inl
    show ?thesis
    proof (cases "py_delattr rt h old key")
      case (Inl e')
      with Cons oo absent show ?thesis by (simp split: if_splits)
    next
      case (Inr h1)
      then have "same_shape h h1" by (rule py_delattr_shape)
      moreover have "same_shape h1 h'" using Cons oo absent Inr by (simp split: if_splits)
      ultimately show ?thesis by (rule same_shape_trans)
    qed
  next
    case (Inr new_obj)
    note no = Inr
    then obtain h1 where h1: "g old_obj new_obj h = Inr h1"
      using Cons.prems oo by (auto split: sum.splits)
    then have s1: "same_shape h h1" using g by (auto simp: preserves_def)
    show ?thesis
    proof (cases "py_getattr rt h1 new key")
      case (Inl e)
      then have "same_shape h1 h'" using Cons oo no h1 by (simp split: if_splits)
      with s1 show ?thesis by (rule same_shape_trans)
    next
      case (Inr v)
      note v = Inr
      show ?thesis
      proof (cases "py_setattr rt h1 old key v")
        case (Inl e)
        then have "same_shape h1 h'" using Cons oo no h1 v by (simp split: if_splits)
        with s1 show ?thesis by (rule same_shape_trans)
      next
        case (Inr h2)
        then have "same_shape h1 h2" by (rule py_setattr_shape)
        moreover have "same_shape h2 h'" using Cons oo no h1 v Inr by simp
        ultimately have "same_shape h1 h'" by (rule same_shape_trans)
        with s1 show ?thesis by (rule same_shape_trans)
      qed
    qed
  qed
qed

lemma update_class_shape:
  assumes "preserves g" and "p_update_class g rt old new h = Inr h'"
  shows "same_shape h h'"
proof -
  from assms(2) obtain h1 where
    "update_class_loop g rt old new (class_keys h old) h = Inr h1"
    "p_update_instances rt old new h1 = Inr h'"
    by (auto simp: p_update_class_def split: sum.splits)
  then show ?thesis
    using update_class_loop_shape [OF assms(1)] update_instances_shape same_shape_trans by blast
qed

lemma update_accessor_shape:
  assumes "preserves g" and "update_accessor g rt old new name h = Inr h'"
  shows "same_shape h h'"
  using assms by (auto simp: update_accessor_def preserves_def split: sum.splits)

lemma update_property_shape:
  assumes "preserves g" and "p_update_property g rt old new h = Inr h'"
  shows "same_shape h h'"
proof -
  from assms(2) obtain h1 h2 where
    "update_accessor g rt old new ''fdel'' h = Inr h1"
    "update_accessor g rt old new ''fget'' h1 = Inr h2"
    "update_accessor g rt old new ''fset'' h2 = Inr h'"
    by (auto simp: p_update_property_def split: sum.splits)
  then show ?thesis
    using update_accessor_shape [OF assms(1)] same_shape_trans by blast
qed

lemma update_rules_preserves:
  assumes "preserves g"
  shows "preserves (update_rules g rt)"
  unfolding preserves_def
proof (intro allI impI)
  fix a b h h'
  assume "update_rules g rt a b h = Inr h'"
  then show "same_shape h h'"
    using update_class_shape [OF assms] update_property_shape [OF assms]
      update_function_shape update_method_shape same_shape_refl
    by (auto simp: update_rules_def split: if_splits)
qed

lemma recursion_error_preserves: "preserves recursion_error"
  by (simp add: preserves_def recursion_error_def)

lemma update_generic_preserves: "preserves (p_update_generic depth rt)"
  by (induction depth) (simp_all add: update_rules_preserves recursion_error_preserves)

lemma shrinks_refl: "shrinks h h"
  by (simp add: shrinks_def)

lemma shrinksD:
  assumes "shrinks h h'" and "h' r = Some ob'"
  shows "\<exists>ob. h r = Some ob \<and> shape ob = shape ob'"
proof -
  have "h' r = None \<or> map_option shape (h' r) = map_option shape (h r)"
    using assms(1) unfolding shrinks_def by blast
  then have "map_option shape (h r) = Some (shape ob')" using assms(2) by simp
  then show ?thesis by (cases "h r") simp_all
qed

lemma shrinks_trans:
  assumes "shrinks h1 h2" and "shrinks h2 h3"
  shows "shrinks h1 h3"
  unfolding shrinks_def
proof
  fix r
  show "h3 r = None \<or> map_option shape (h3 r) = map_option shape (h1 r)"
  proof (cases "h3 r")
    case None
    then show ?thesis by simp
  next
    case (Some ob3)
    from shrinksD [OF assms(2) Some] obtain ob2 where 2: "h2 r = Some ob2" "shape ob2 = shape ob3"
      by blast
    from shrinksD [OF assms(1) 2(1)] obtain ob1 where "h1 r = Some ob1" "shape ob1 = shape ob2"
      by blast
    with 2 Some show ?thesis by simp
  qed
qed

lemma shrinks_resolves:
  assumes "shrinks h h'" and "resolves h' r"
  shows "resolves h r"
proof -
  from assms(2) obtain ob' where ob': "h' r = Some ob'" "ob_true ob'"
    by (auto simp: resolves_def split: option.splits)
  from shrinksD [OF assms(1) ob'(1)] obtain ob where "h r = Some ob" "shape ob = shape ob'"
    by blast
  with ob' show ?thesis by (simp add: resolves_def shape_def)
qed

lemma keeps_refl: "keeps H h h"
  by (simp add: keeps_def shrinks_refl)

lemma keeps_trans:
  assumes "keeps H h1 h2" and "keeps H h2 h3"
  shows "keeps H h1 h3"
  using assms shrinks_trans [of h1 h2 h3] by (auto simp: keeps_def)

lemma keeps_mono: "keeps H h h' \<Longrightarrow> H' \<subseteq> H \<Longrightarrow> keeps H' h h'"
  by (auto simp: keeps_def)

lemma keeps_shrinks: "keeps H h h' \<Longrightarrow> shrinks h h'"
  by (simp add: keeps_def)

lemma same_shape_keeps:
  assumes "same_shape h h'"
  shows "keeps H h h'"
proof -
  have eq: "map_option shape (h' r) = map_option shape (h r)" for r
    using assms by (simp add: same_shape_def)
  have "shrinks h h'" by (simp add: shrinks_def eq)
  moreover have "h r = None" if "h' r = None" for r
    using eq [of r] that by simp
  ultimately show ?thesis by (simp add: keeps_def)
qed

lemma collect_keeps: "H \<subseteq> set held \<Longrightarrow> keeps H h (collect rt held h)"
  by (auto simp: keeps_def shrinks_def collect_def)

lemma keeps_resolves:
  assumes "keeps H h h'" and "r \<in> H"
  shows "resolves h' r = resolves h r"
proof (cases "h' r")
  case None
  then have "h r = None" using assms by (auto simp: keeps_def)
  with None show ?thesis by (simp add: resolves_def)
next
  case (Some ob')
  have "shrinks h h'" using assms(1) by (simp add: keeps_def)
  from shrinksD [OF this Some] obtain ob where "h r = Some ob" "shape ob = shape ob'"
    by blast
  with Some show ?thesis by (simp add: resolves_def shape_def)
qed

lemma update_old_objects_keeps:
  assumes g: "preserves g"
  shows "update_old_objects g rt held objs new_obj h = Inr h' \<Longrightarrow> keeps (set held) h h'"
proof (induction objs arbitrary: h)
  case Nil
  then show ?case by (simp add: keeps_refl)
next
  case (Cons ob objs)
  then obtain h1 where h1: "g ob new_obj h = Inr h1"
    and rest: "update_old_objects g rt held objs new_obj (collect rt held h1) = Inr h'"
    by (auto split: sum.splits)
  have "same_shape h h1" using h1 g by (auto simp: preserves_def)
  then have "keeps (set held) h h1" by (rule same_shape_keeps)
  moreover have "keeps (set held) h1 (collect rt held h1)" by (rule collect_keeps) simp
  moreover have "keeps (set held) (collect rt held h1) h'" using rest by (rule Cons.IH)
  ultimately show ?case using keeps_trans by blast
qed

lemma dict_clear_shape: "same_shape h (dict_clear h r)"
  by (cases "h r") (simp_all add: dict_clear_def same_shape_def shape_def)

lemma dict_update_shape: "same_shape h (dict_update h r items)"
  by (cases "h r") (simp_all add: dict_update_def same_shape_def shape_def)

lemma update_old_module_keeps: "keeps (set held) h (p_update_old_module rt held old_module new_module h)"
proof -
  let ?h0 = "dict_clear h old_module"
  let ?h1 = "collect rt held ?h0"
  have "keeps (set held) h ?h0" by (rule same_shape_keeps) (rule dict_clear_shape)
  moreover have "keeps (set held) ?h0 ?h1" by (rule collect_keeps) simp
  moreover have "keeps (set held) ?h1 (dict_update ?h1 old_module (module_items ?h1 new_module))"
    by (rule same_shape_keeps) (rule dict_update_shape)
  ultimately show ?thesis
    unfolding p_update_old_module_def Let_def using keeps_trans by blast
qed

lemma update_old_modules_keeps: "keeps (set held) h (update_old_modules rt held ms new_module h)"
proof (induction ms arbitrary: h)
  case Nil
  then show ?case by (simp add: keeps_refl)
next
  case (Cons m ms)
  have "keeps (set held) h (p_update_old_module rt held m new_module h)"
    by (rule update_old_module_keeps)
  moreover have "keeps (set held) (p_update_old_module rt held m new_module h)
      (update_old_modules rt held ms new_module (p_update_old_module rt held m new_module h))"
    by (rule Cons.IH)
  ultimately show ?case unfolding update_old_modules.simps by (rule keeps_trans)
qed

lemma update_old_module_items:
  assumes "new_module \<in> set held"
  shows "module_items (p_update_old_module rt held m new_module h) new_module
           = (if m = new_module then [] else module_items h new_module)"
proof (cases "m = new_module")
  case True
  let ?h1 = "collect rt held (dict_clear h new_module)"
  have h1: "?h1 new_module = dict_clear h new_module new_module"
    using assms by (simp add: collect_def)
  have empty: "module_items ?h1 new_module = []"
    unfolding module_items_def h1 by (cases "h new_module") (simp_all add: dict_clear_def)
  have "module_items (dict_update ?h1 new_module []) new_module = []"
    using empty by (cases "?h1 new_module") (simp_all add: dict_update_def module_items_def)
  then show ?thesis using True by (simp add: p_update_old_module_def Let_def empty)
next
  case False
  let ?h1 = "collect rt held (dict_clear h m)"
  have "dict_clear h m new_module = h new_module"
    using False by (cases "h m") (simp_all add: dict_clear_def)
  then have h1: "?h1 new_module = h new_module" using assms by (simp add: collect_def)
  have "dict_update ?h1 m (module_items ?h1 new_module) new_module = ?h1 new_module"
    using False by (cases "?h1 m") (simp_all add: dict_update_def)
  then show ?thesis using False h1 by (simp add: p_update_old_module_def Let_def module_items_def)
qed

lemma update_old_modules_items:
  assumes "new_module \<in> set held"
  shows "module_items (update_old_modules rt held ms new_module h) new_module
           = (if new_module \<in> set ms then [] else module_items h new_module)"
proof (induction ms arbitrary: h)
  case Nil
  then show ?case by simp
next
  case (Cons m ms)
  show ?case
    unfolding update_old_modules.simps Cons.IH update_old_module_items [OF assms]
    by auto
qed

lemma alist_update_new: "name \<notin> fst ` set al \<Longrightarrow> AList.update name v al = al @ [(name, v)]"
  by (induction al) auto

lemma update_objs_loop_result:
  assumes g: "preserves g"
  shows "distinct (map fst items) \<Longrightarrow> fst ` set acc \<inter> fst ` set items = {} \<Longrightarrow>
         update_objs_loop g rt held objs items hc acc = Inr (h2, acc2) \<Longrightarrow>
         acc2 = acc @ surviving_objs (resolves h2) objs items
       \<and> keeps (set (held @ concat (map snd acc))) hc h2"
proof (induction items arbitrary: hc acc)
  case Nil
  then show ?case by (simp add: keeps_refl)
next
  case (Cons item items)
  obtain name new_obj where item: "item = (name, new_obj)" by (cases item) auto
  have d: "distinct (map fst items)" and n: "name \<notin> fst ` set items"
    using Cons.prems(1) item by auto
  have nacc: "name \<notin> fst ` set acc" using Cons.prems(2) item by auto
  have disj: "fst ` set acc \<inter> fst ` set items = {}" using Cons.prems(2) by auto
  show ?case
  proof (cases "map_of objs name")
    case None
    then have "update_objs_loop g rt held objs items hc acc = Inr (h2, acc2)"
      using Cons.prems(3) item by simp
    from Cons.IH [OF d disj this] show ?thesis using None item by simp
  next
    case (Some rs)
    let ?lv = "filter (resolves hc) rs"
    let ?acc = "acc @ [(name, ?lv)]"
    let ?held = "held @ concat (map snd ?acc)"
    have upd: "AList.update name ?lv acc = ?acc"
      using nacc by (rule alist_update_new)
    obtain h1 where h1: "update_old_objects g rt ?held ?lv new_obj hc = Inr h1"
      and rest: "update_objs_loop g rt held objs items h1 ?acc = Inr (h2, acc2)"
      using Cons.prems(3) item Some unfolding upd [symmetric]
      by (auto simp: Let_def split: sum.splits)
    have k1: "keeps (set ?held) hc h1" using g h1 by (rule update_old_objects_keeps)
    have disj1: "fst ` set ?acc \<inter> fst ` set items = {}"
      using disj n by auto
    from Cons.IH [OF d disj1 rest]
    have acc2: "acc2 = ?acc @ surviving_objs (resolves h2) objs items"
      and k2: "keeps (set ?held) h1 h2" by simp_all
    have k: "keeps (set ?held) hc h2" using k1 k2 by (rule keeps_trans)
    have same: "resolves hc r = resolves h2 r" if "r \<in> set rs" for r
    proof (cases "resolves hc r")
      case True
      then have "r \<in> set ?held" using that by simp
      with k have "resolves h2 r = resolves hc r" by (rule keeps_resolves)
      then show ?thesis by simp
    next
      case False
      have "\<not> resolves h2 r"
        using False shrinks_resolves [OF keeps_shrinks [OF k]] by blast
      with False show ?thesis by simp
    qed
    have lv: "?lv = filter (resolves h2) rs"
      by (rule filter_cong) (simp_all add: same)
    have "keeps (set (held @ concat (map snd acc))) hc h2"
      using k by (rule keeps_mono) auto
    moreover have "acc2 = acc @ surviving_objs (resolves h2) objs (item # items)"
      using acc2 Some item lv by simp
    ultimately show ?thesis by simp
  qed
qed

lemma update_objs_loop_prune:
  assumes g: "preserves g"
  shows "shrinks h hc \<Longrightarrow>
         update_objs_loop g rt held (map (\<lambda>(name, rs). (name, filter (resolves h) rs)) objs) items hc acc
           = update_objs_loop g rt held objs items hc acc"
proof (induction items arbitrary: hc acc)
  case Nil
  then show ?case by simp
next
  case (Cons item items)
  obtain name new_obj where item: "item = (name, new_obj)" by (cases item) auto
  let ?objs = "map (\<lambda>(name, rs). (name, filter (resolves h) rs)) objs"
  have look: "map_of ?objs name = map_option (filter (resolves h)) (map_of objs name)"
    by (induction objs) auto
  show ?case
  proof (cases "map_of objs name")
    case None
    then show ?thesis using look item Cons by simp
  next
    case (Some rs)
    have "resolves h r" if "resolves hc r" for r
      using Cons.prems that by (rule shrinks_resolves)
    then have same: "filter (resolves hc) (filter (resolves h) rs) = filter (resolves hc) rs"
      by (auto intro: filter_cong)
    let ?lv = "filter (resolves hc) rs"
    let ?held = "held @ concat (map snd (AList.update name ?lv acc))"
    show ?thesis
    proof (cases "update_old_objects g rt ?held ?lv new_obj hc")
      case (Inl e)
      then show ?thesis using look item Some same by (simp add: Let_def)
    next
      case (Inr h1)
      have "shrinks hc h1"
        using update_old_objects_keeps [OF g Inr] by (rule keeps_shrinks)
      with Cons.prems have "shrinks h h1" by (rule shrinks_trans)
      from Cons.IH [OF this] show ?thesis using look item Some same Inr by (simp add: Let_def)
    qed
  qed
qed

text \<open>
  Claim C8, amended. When the pass returns (no update of a live object raised), the
  snapshot it returns holds exactly the module versions whose weak reference resolves, to
  an object that is true, at the \<^verbatim>\<open>return\<close> statement; they are the ones for which it did so
  when the pass began. For each tracked name that the namespace of the new module binds,
  in its order, it holds exactly the tracked objects whose weak reference resolves, to an
  object that is true, at the \<^verbatim>\<open>return\<close> statement: an object that is freed during the pass,
  as one that only the namespace of an old module held, has no entry. If the new module is
  itself one of these versions, its namespace was cleared and no name has an entry. A
  tracked name that the new module does not bind has no entry, whether its objects are
  live or not. And the pass does the same, with the same result, when the references that
  do not resolve are removed from the snapshot beforehand: they raise nothing and change
  nothing.
\<close>

theorem patch_pass_keeps_live_entries:
  assumes names: "distinct (map fst (module_items h new_module))"
    and run: "update_refs_with_new_module depth rt self new_module h = Inr (h', out)"
  shows "refs_modules out = filter (resolves h') (refs_modules self)
       \<and> refs_modules out = filter (resolves h) (refs_modules self)
       \<and> refs_objs out = surviving_objs (resolves h') (refs_objs self)
           (if new_module \<in> set (refs_modules out) then [] else module_items h new_module)
       \<and> update_refs_with_new_module depth rt (prune_refs h self) new_module h = Inr (h', out)"
proof -
  let ?g = "p_update_generic depth rt"
  let ?ms = "filter (resolves h) (refs_modules self)"
  let ?held = "new_module # ?ms"
  let ?h1 = "update_old_modules rt ?held ?ms new_module h"
  let ?items = "module_items ?h1 new_module"
  have g: "preserves ?g" by (rule update_generic_preserves)
  obtain acc where loop: "update_objs_loop ?g rt ?held (refs_objs self) ?items ?h1 [] = Inr (h', acc)"
    and out: "out = \<lparr>refs_modules = ?ms, refs_objs = acc\<rparr>"
    using run unfolding update_refs_with_new_module_def Let_def
    by (auto split: sum.splits)
  have items: "?items = (if new_module \<in> set ?ms then [] else module_items h new_module)"
    by (rule update_old_modules_items) simp
  have d: "distinct (map fst ?items)" unfolding items using names by simp
  have k1: "keeps (set ?held) h ?h1" by (rule update_old_modules_keeps)
  have "fst ` set [] \<inter> fst ` set ?items = {}" by simp
  from update_objs_loop_result [OF g d this loop]
  have res: "acc = surviving_objs (resolves h') (refs_objs self) ?items"
    and k2: "keeps (set ?held) ?h1 h'" by simp_all
  have k: "keeps (set ?held) h h'" using k1 k2 by (rule keeps_trans)
  have same: "resolves h r = resolves h' r" if "r \<in> set (refs_modules self)" for r
  proof (cases "resolves h r")
    case True
    then have "r \<in> set ?held" using that by simp
    with k have "resolves h' r = resolves h r" by (rule keeps_resolves)
    then show ?thesis by simp
  next
    case False
    have "\<not> resolves h' r"
      using False shrinks_resolves [OF keeps_shrinks [OF k]] by blast
    with False show ?thesis by simp
  qed
  have mods: "?ms = filter (resolves h') (refs_modules self)"
    by (rule filter_cong) (simp_all add: same)
  have pl: "update_objs_loop ?g rt ?held
              (map (\<lambda>(name, rs). (name, filter (resolves h) rs)) (refs_objs self)) ?items ?h1 []
            = update_objs_loop ?g rt ?held (refs_objs self) ?items ?h1 []"
    by (rule update_objs_loop_prune [OF g keeps_shrinks [OF k1]])
  have idem: "filter (resolves h) ?ms = ?ms" by simp
  have pr: "update_refs_with_new_module depth rt (prune_refs h self) new_module h = Inr (h', out)"
    unfolding update_refs_with_new_module_def Let_def prune_refs_def module_refs.simps idem pl loop
    using out by simp
  have objs: "refs_objs out = surviving_objs (resolves h') (refs_objs self)
           (if new_module \<in> set (refs_modules out) then [] else module_items h new_module)"
    using res out items by simp
  have m1: "refs_modules out = filter (resolves h') (refs_modules self)"
    using out mods by simp
  have m2: "refs_modules out = filter (resolves h) (refs_modules self)"
    using out by simp
  show ?thesis using m1 m2 objs pr by blast
qed

lemmas refs_eval = update_refs_with_new_module_def example_refs_def resolves_def
  p_update_old_module_def collect_def dict_clear_def dict_update_def module_items_def Let_def
  update_rules_def p_update_function_def function_attributes_def p_update_class_def
  class_keys_def p_update_instances_def result_refs_def result_resolves_def

text \<open>
  Claim C8 as stated fails: the function 32 is tracked under the name \<^verbatim>\<open>g\<close> and its weak
  reference resolves when the pass returns, but the new module does not bind \<^verbatim>\<open>g\<close>, and the
  returned snapshot has no entry for it. (The old function \<^verbatim>\<open>f\<close>, which only the namespace of
  the old module held, is freed when that namespace is cleared: its entry is empty.)
\<close>

theorem live_entry_dropped_counterexample:
  "map_of (refs_objs example_refs) ''g'' = Some [32]
 \<and> result_resolves
     (update_refs_with_new_module (Suc 0) example_runtime example_refs 8 example_heap) 32
 \<and> result_refs (update_refs_with_new_module (Suc 0) example_runtime example_refs 8 example_heap)
     = Inr \<lparr>refs_modules = [7], refs_objs = [(''f'', []), (''k'', [33]), (''C'', [3])]\<rparr>"
  by (simp add: refs_eval heap_eval)

lemma example_pass:
  "\<exists>h'. update_refs_with_new_module (Suc 0) example_runtime example_refs 8 example_heap
          = Inr (h', \<lparr>refs_modules = [7], refs_objs = [(''f'', []), (''k'', [33]), (''C'', [3])]\<rparr>)"
  by (simp add: refs_eval heap_eval)

theorem patch_pass_keeps_live_entries_witness:
  "distinct (map fst (module_items example_heap 8))
 \<and> (\<exists>h'. update_refs_with_new_module (Suc 0) example_runtime example_refs 8 example_heap
            = Inr (h', \<lparr>refs_modules = [7], refs_objs = [(''f'', []), (''k'', [33]), (''C'', [3])]\<rparr>)
        \<and> filter (resolves h') (refs_modules example_refs) = [7]
        \<and> filter (resolves example_heap) (refs_modules example_refs) = [7]
        \<and> surviving_objs (resolves h') (refs_objs example_refs) (module_items example_heap 8)
            = [(''f'', []), (''k'', [33]), (''C'', [3])]
        \<and> update_refs_with_new_module (Suc 0) example_runtime
             (prune_refs example_heap example_refs) 8 example_heap
            = Inr (h', \<lparr>refs_modules = [7], refs_objs = [(''f'', []), (''k'', [33]), (''C'', [3])]\<rparr>))"
proof -
  let ?out = "\<lparr>refs_modules = [7], refs_objs = [(''f'', []), (''k'', [33]), (''C'', [3])]\<rparr>"
  have names: "distinct (map fst (module_items example_heap 8))"
    by (simp add: module_items_def example_heap_def)
  from example_pass obtain h' where run:
    "update_refs_with_new_module (Suc 0) example_runtime example_refs 8 example_heap = Inr (h', ?out)"
    by blast
  note r = patch_pass_keeps_live_entries [OF names run]
  have a: "filter (resolves h') (refs_modules example_refs) = [7]"
    using r [THEN conjunct1, symmetric] by simp
  have b: "filter (resolves example_heap) (refs_modules example_refs) = [7]"
    using r [THEN conjunct2, THEN conjunct1, symmetric] by simp
  have c: "surviving_objs (resolves h') (refs_objs example_refs) (module_items example_heap 8)
           = [(''f'', []), (''k'', [33]), (''C'', [3])]"
    using r [THEN conjunct2, THEN conjunct2, THEN conjunct1, symmetric] by simp
  have d: "update_refs_with_new_module (Suc 0) example_runtime
             (prune_refs example_heap example_refs) 8 example_heap = Inr (h', ?out)"
    using r by simp
  show ?thesis using names run a b c d by blast
qed

end
